theory Spec2Isabelle
  imports Main
begin

unbundle bit_operations_syntax

section \<open>Data model of \<^verbatim>\<open>connect_n.h\<close>\<close>

text \<open>
  \<^verbatim>\<open>struct Shape { int rows; int cols; }\<close> and \<^verbatim>\<open>struct Vec2i { int x; int y; }\<close>.
  The fields of \<^verbatim>\<open>Vec2i\<close> are called \<open>vx\<close> and \<open>vy\<close> here, since \<open>x\<close> and \<open>y\<close>
  have to stay free for variables. Every coordinate the code computes stays within
  a few units of the grid, so \<^verbatim>\<open>int\<close> is modelled by \<^typ>\<open>int\<close>.
\<close>

record Shape =
  rows :: int
  cols :: int

record Vec2i =
  vx :: int
  vy :: int

text \<open>\<^verbatim>\<open>enum class Tile : int8_t { Negative = -1, Empty = 0, Positive = 1 }\<close>\<close>

datatype Tile = Negative | Empty | Positive

fun getEnemyTile :: "Tile \<Rightarrow> Tile" where
  "getEnemyTile Negative = Positive"
| "getEnemyTile Positive = Negative"
| "getEnemyTile Empty = Empty"

text \<open>\<^verbatim>\<open>static_cast<long>(tile)\<close>\<close>

fun tileValue :: "Tile \<Rightarrow> int" where
  "tileValue Negative = - 1"
| "tileValue Empty = 0"
| "tileValue Positive = 1"

record Move =
  pos :: Vec2i
  tile :: Tile

subsection \<open>Bit sets\<close>

text \<open>
  A \<^verbatim>\<open>std::bitset<n>\<close> is modelled by the integer whose binary digits are its bits;
  the value of a bit set of size \<open>n\<close> lies in \<open>{0 ..< 2 ^ n}\<close>. Shifting left drops the
  bits that leave the set, complement flips the \<open>n\<close> bits of the set only.
\<close>

definition bitset_shl :: "nat \<Rightarrow> int \<Rightarrow> nat \<Rightarrow> int" where
  "bitset_shl n v k = take_bit n (push_bit k v)"

definition bitset_shr :: "int \<Rightarrow> nat \<Rightarrow> int" where
  "bitset_shr v k = drop_bit k v"

definition bitset_not :: "nat \<Rightarrow> int \<Rightarrow> int" where
  "bitset_not n v = take_bit n (NOT v)"

subsection \<open>Board\<close>

text \<open>
  \<^verbatim>\<open>template <size_t S_ROWS, size_t S_COLS> class Board\<close>: the shape built from the
  template arguments and the two bit sets of size \<^verbatim>\<open>S_ROWS * S_COLS\<close>. The connection
  length \<^verbatim>\<open>connectN\<close> is the constant 4.
\<close>

record Board =
  m_shape :: Shape
  m_positivePieces :: int
  m_negativePieces :: int

definition connectN :: int where
  "connectN = 4"

definition n_elems :: "Board \<Rightarrow> nat" where
  "n_elems b = nat (rows (m_shape b) * cols (m_shape b))"

text \<open>The values the C++ type can hold: both bit sets fit in \<^verbatim>\<open>S_ROWS * S_COLS\<close> bits.\<close>

definition board_rep :: "Board \<Rightarrow> bool" where
  "board_rep b \<longleftrightarrow>
     0 \<le> rows (m_shape b) \<and> 0 \<le> cols (m_shape b) \<and>
     take_bit (n_elems b) (m_positivePieces b) = m_positivePieces b \<and>
     take_bit (n_elems b) (m_negativePieces b) = m_negativePieces b"

text \<open>The default constructor \<^verbatim>\<open>Board()\<close>.\<close>

definition emptyBoard :: "int \<Rightarrow> int \<Rightarrow> Board" where
  "emptyBoard r c =
     \<lparr>m_shape = \<lparr>rows = r, cols = c\<rparr>, m_positivePieces = 0, m_negativePieces = 0\<rparr>"

definition isValidPosition :: "Board \<Rightarrow> Vec2i \<Rightarrow> bool" where
  "isValidPosition b p \<longleftrightarrow>
     \<not> (vx p < 0 \<or> vx p \<ge> cols (m_shape b) \<or> vy p < 0 \<or> vy p \<ge> rows (m_shape b))"

definition index :: "Board \<Rightarrow> Vec2i \<Rightarrow> nat" where
  "index b p = nat (vy p * cols (m_shape b) + vx p)"

text \<open>The test \<^verbatim>\<open>((pieces >> index(pos)) & mask) == mask\<close> with \<^verbatim>\<open>mask{1ULL}\<close>.\<close>

definition testPiece :: "int \<Rightarrow> nat \<Rightarrow> bool" where
  "testPiece pieces i \<longleftrightarrow> (bitset_shr pieces i) AND 1 = 1"

text \<open>\<^verbatim>\<open>Board::operator[]\<close>: \<open>None\<close> is the absent value for a position outside the grid.\<close>

definition tileAt :: "Board \<Rightarrow> Vec2i \<Rightarrow> Tile option" where
  "tileAt b p =
     (if \<not> isValidPosition b p then None
      else if testPiece (m_positivePieces b) (index b p) then Some Positive
      else if testPiece (m_negativePieces b) (index b p) then Some Negative
      else Some Empty)"

text \<open>
  \<^verbatim>\<open>Board::operator<<\<close> (placement): the returned pair is the \<^verbatim>\<open>bool\<close> result and the
  board after the call.
\<close>

definition place :: "Board \<Rightarrow> Move \<Rightarrow> bool \<times> Board" where
  "place b m =
     (if \<not> isValidPosition b (pos m) then (False, b)
      else
        let below = \<lparr>vx = vx (pos m), vy = vy (pos m) + 1\<rparr> in
        if vy (pos m) + 1 \<noteq> rows (m_shape b) \<and> tileAt b below = Some Empty then (False, b)
        else
          let mask = bitset_shl (n_elems b) 1 (index b (pos m)) in
          (case tile m of
             Positive \<Rightarrow> (True, b\<lparr>m_positivePieces := m_positivePieces b OR mask\<rparr>)
           | Negative \<Rightarrow> (True, b\<lparr>m_negativePieces := m_negativePieces b OR mask\<rparr>)
           | Empty \<Rightarrow> (False, b)))"

text \<open>\<^verbatim>\<open>Board::operator>>\<close> (removal).\<close>

definition remove :: "Board \<Rightarrow> Move \<Rightarrow> bool \<times> Board" where
  "remove b m =
     (if \<not> isValidPosition b (pos m) then (False, b)
      else
        let mask = bitset_not (n_elems b) (bitset_shl (n_elems b) 1 (index b (pos m))) in
        (case tile m of
           Positive \<Rightarrow> (True, b\<lparr>m_positivePieces := m_positivePieces b AND mask\<rparr>)
         | Negative \<Rightarrow> (True, b\<lparr>m_negativePieces := m_negativePieces b AND mask\<rparr>)
         | Empty \<Rightarrow> (False, b)))"

text \<open>The pieces of one colour: the bit that placement sets and removal clears.\<close>

definition hasPiece :: "Board \<Rightarrow> Tile \<Rightarrow> Vec2i \<Rightarrow> bool" where
  "hasPiece b t p =
     (case t of
        Positive \<Rightarrow> testPiece (m_positivePieces b) (index b p)
      | Negative \<Rightarrow> testPiece (m_negativePieces b) (index b p)
      | Empty \<Rightarrow> False)"

section \<open>Evaluator\<close>

text \<open>
  Everything that is undefined behaviour or a thrown exception in the C++ is a value of
  \<open>error\<close>: reading \<^verbatim>\<open>back()\<close> or element 0 of an empty vector, \<^verbatim>\<open>throw std::exception()\<close>,
  \<^verbatim>\<open>value()\<close> of an empty optional, a null pointer dereferenced, a remainder by zero.
\<close>

datatype error =
  EmptyVectorAccess | ThrownException | BadOptionalAccess | NullPointer | DivisionByZero

text \<open>\<^verbatim>\<open>std::numeric_limits<long>::max()\<close> and \<^verbatim>\<open>min()\<close> of a 64-bit \<^verbatim>\<open>long\<close>.\<close>

definition long_max :: int where
  "long_max = 2 ^ 63 - 1"

definition long_min :: int where
  "long_min = - (2 ^ 63)"

text \<open>\<^verbatim>\<open>directions{{{1, 0}, {0, 1}, {1, -1}, {1, 1}}}\<close> and \<^verbatim>\<open>Vec2i::operator-()\<close>.\<close>

definition directions :: "Vec2i list" where
  "directions =
     [\<lparr>vx = 1, vy = 0\<rparr>, \<lparr>vx = 0, vy = 1\<rparr>, \<lparr>vx = 1, vy = - 1\<rparr>, \<lparr>vx = 1, vy = 1\<rparr>]"

definition negate :: "Vec2i \<Rightarrow> Vec2i" where
  "negate d = \<lparr>vx = - vx d, vy = - vy d\<rparr>"

text \<open>
  The lambda \<^verbatim>\<open>check\<close>: the loop \<^verbatim>\<open>for (int i = 1; i < N; ++i)\<close> over the remaining
  values of \<open>i\<close>, with the running \<^verbatim>\<open>count\<close>; each \<^verbatim>\<open>break\<close> returns the count.
\<close>

fun check_loop :: "Board \<Rightarrow> Vec2i \<Rightarrow> Vec2i \<Rightarrow> Tile \<Rightarrow> int list \<Rightarrow> int \<Rightarrow> int" where
  "check_loop b p d lastTile [] count = count"
| "check_loop b p d lastTile (i # is) count =
     (let current = \<lparr>vx = vx p + vx d * i, vy = vy p + vy d * i\<rparr> in
      if vx current < 0 \<or> vx current \<ge> cols (m_shape b) \<or>
         vy current < 0 \<or> vy current \<ge> rows (m_shape b) then count
      else
        (case tileAt b current of
           None \<Rightarrow> count
         | Some t \<Rightarrow>
             if t \<noteq> lastTile then count
             else check_loop b p d lastTile is (count + 1)))"

definition check :: "Board \<Rightarrow> Vec2i \<Rightarrow> Vec2i \<Rightarrow> Tile \<Rightarrow> int" where
  "check b p d lastTile = check_loop b p d lastTile [1 .. connectN - 1] 0"

definition winResult :: "Tile \<Rightarrow> int option \<times> int" where
  "winResult lastTile =
     (Some (tileValue lastTile), if lastTile = Positive then long_max else long_min)"

text \<open>
  The loop \<^verbatim>\<open>for (auto d : directions)\<close> at one occupied cell: \<open>Inl\<close> is the early
  \<^verbatim>\<open>return\<close> of a win, \<open>Inr\<close> the score after the loop. The addend
  \<^verbatim>\<open>std::pow(10, count) * static_cast<long>(lastTile)\<close> is computed in \<^verbatim>\<open>double\<close>; here
  \<open>1 \<le> count < 4\<close>, so it is one of \<open>\<plusminus>10\<close>, \<open>\<plusminus>100\<close>, \<open>\<plusminus>1000\<close>, and the running score, at
  most 4000 times the number of cells in magnitude, is far inside the range where
  \<^verbatim>\<open>double\<close> and \<^verbatim>\<open>long\<close> are exact.
\<close>

fun eval_directions ::
  "Board \<Rightarrow> Vec2i \<Rightarrow> Tile \<Rightarrow> Vec2i list \<Rightarrow> int \<Rightarrow> (int option \<times> int) + int" where
  "eval_directions b p lastTile [] score = Inr score"
| "eval_directions b p lastTile (d # ds) score =
     (let count = 1 + check b p d lastTile in
      if count \<ge> connectN then Inl (winResult lastTile)
      else
        let count = count + check b p (negate d) lastTile in
        if count \<ge> connectN then Inl (winResult lastTile)
        else eval_directions b p lastTile ds (score + 10 ^ nat count * tileValue lastTile))"

text \<open>The cells in the order of the two nested loops: rows from the top, columns from the left.\<close>

definition allPositions :: "Board \<Rightarrow> Vec2i list" where
  "allPositions b =
     concat (map (\<lambda>r. map (\<lambda>c. \<lparr>vx = c, vy = r\<rparr>) [0 .. cols (m_shape b) - 1])
                 [0 .. rows (m_shape b) - 1])"

fun eval_cells :: "Board \<Rightarrow> Vec2i list \<Rightarrow> int \<Rightarrow> (int option \<times> int) + int" where
  "eval_cells b [] score = Inr score"
| "eval_cells b (p # ps) score =
     (case tileAt b p of
        None \<Rightarrow> eval_cells b ps score
      | Some Empty \<Rightarrow> eval_cells b ps score
      | Some lastTile \<Rightarrow>
          (case eval_directions b p lastTile directions score of
             Inl r \<Rightarrow> Inl r
           | Inr score' \<Rightarrow> eval_cells b ps score'))"

text \<open>The draw check: no cell of row 0 compares equal to \<^verbatim>\<open>Tile::Empty\<close>.\<close>

definition isDraw :: "Board \<Rightarrow> bool" where
  "isDraw b \<longleftrightarrow> list_all (\<lambda>i. tileAt b \<lparr>vx = i, vy = 0\<rparr> \<noteq> Some Empty) [0 .. cols (m_shape b) - 1]"

text \<open>\<^verbatim>\<open>evaluate(board)\<close>: the pair of the terminal result and the heuristic score.\<close>

definition evaluate :: "Board \<Rightarrow> int option \<times> int" where
  "evaluate b =
     (case eval_cells b (allPositions b) 0 of
        Inl r \<Rightarrow> r
      | Inr score \<Rightarrow> if isDraw b then (Some 0, 0) else (None, score))"

text \<open>\<^verbatim>\<open>evaluate(board, lastPosition)\<close>: the lines through one position only.\<close>

definition evaluateAt :: "Board \<Rightarrow> Vec2i \<Rightarrow> int option \<times> int" where
  "evaluateAt b lastPosition =
     (case tileAt b lastPosition of
        None \<Rightarrow> (None, 0)
      | Some Empty \<Rightarrow> (None, 0)
      | Some lastTile \<Rightarrow>
          (case eval_directions b lastPosition lastTile directions 0 of
             Inl r \<Rightarrow> r
           | Inr score \<Rightarrow> if isDraw b then (Some 0, 0) else (None, score)))"

section \<open>Move generator\<close>

text \<open>
  The inner loop \<^verbatim>\<open>for (int level{1}; level < rows; ++level)\<close>: the position it pushes
  before its \<^verbatim>\<open>break\<close>, if any.
\<close>

fun findLevel :: "Board \<Rightarrow> int \<Rightarrow> int list \<Rightarrow> Vec2i option" where
  "findLevel b x [] = None"
| "findLevel b x (level # levels) =
     (if tileAt b \<lparr>vx = x, vy = level\<rparr> \<noteq> Some Empty then Some \<lparr>vx = x, vy = level - 1\<rparr>
      else findLevel b x levels)"

text \<open>
  The outer loop over the columns, with the vector \<^verbatim>\<open>res\<close> built so far. The test
  \<^verbatim>\<open>res.back().x != x\<close> reads the last element of \<^verbatim>\<open>res\<close>; on an empty vector that read is
  undefined behaviour.
\<close>

fun genLoop :: "Board \<Rightarrow> int list \<Rightarrow> Vec2i list \<Rightarrow> error + Vec2i list" where
  "genLoop b [] res = Inr res"
| "genLoop b (x # xs) res =
     (if tileAt b \<lparr>vx = x, vy = 0\<rparr> \<noteq> Some Empty then genLoop b xs res
      else
        let res = (case findLevel b x [1 .. rows (m_shape b) - 1] of
                     Some p \<Rightarrow> res @ [p]
                   | None \<Rightarrow> res)
        in
        if res = [] then Inl EmptyVectorAccess
        else if vx (last res) \<noteq> x
          then genLoop b xs (res @ [\<lparr>vx = x, vy = rows (m_shape b) - 1\<rparr>])
          else genLoop b xs res)"

definition generateValidPositions :: "Board \<Rightarrow> error + Vec2i list" where
  "generateValidPositions b = genLoop b [0 .. cols (m_shape b) - 1] []"

section \<open>Game driver\<close>

text \<open>
  \<^verbatim>\<open>class Game\<close>: the players are pointers, compared by address; \<open>'p\<close> is the type of
  those addresses. The virtual call \<^verbatim>\<open>currentPlayer->getNextMove(board)\<close> is the
  parameter \<open>getNextMove\<close>, which may fail as the agents of the repository can.
\<close>

record 'p Game =
  board :: Board
  isGameOver :: bool
  playerPositive :: 'p
  playerNegative :: 'p
  currentPlayer :: 'p

definition newGame :: "int \<Rightarrow> int \<Rightarrow> 'p \<Rightarrow> 'p \<Rightarrow> 'p Game" where
  "newGame r c t_playerPositive t_playerNegative =
     \<lparr>board = emptyBoard r c, isGameOver = False, playerPositive = t_playerPositive,
      playerNegative = t_playerNegative, currentPlayer = t_playerPositive\<rparr>"

definition swapPlayers :: "'p Game \<Rightarrow> error + 'p Game" where
  "swapPlayers g =
     (if currentPlayer g = playerPositive g then Inr (g\<lparr>currentPlayer := playerNegative g\<rparr>)
      else if currentPlayer g = playerNegative g then Inr (g\<lparr>currentPlayer := playerPositive g\<rparr>)
      else Inl ThrownException)"

text \<open>
  \<^verbatim>\<open>Game::makeMove\<close>. The condition \<^verbatim>\<open>!isGameOver && board << newMove\<close> short-circuits:
  the placement is attempted only while the game is not over, and whatever it leaves
  in \<^verbatim>\<open>board\<close> is what the \<^verbatim>\<open>else\<close> branch evaluates.
\<close>

definition makeMove ::
  "('p \<Rightarrow> Board \<Rightarrow> error + Move) \<Rightarrow> 'p Game \<Rightarrow> error + (int option \<times> 'p Game)" where
  "makeMove getNextMove g =
     (case getNextMove (currentPlayer g) (board g) of
        Inl e \<Rightarrow> Inl e
      | Inr newMove \<Rightarrow>
          if isGameOver g then Inr (fst (evaluate (board g)), g)
          else
            let (ok, b') = place (board g) newMove; g' = g\<lparr>board := b'\<rparr> in
            if ok then
              (case swapPlayers g' of
                 Inl e \<Rightarrow> Inl e
               | Inr g'' \<Rightarrow> Inr (fst (evaluateAt (board g'') (pos newMove)), g''))
            else Inr (fst (evaluate (board g')), g'))"

section \<open>Minimax player\<close>

text \<open>
  \<^verbatim>\<open>MinimaxPlayer::alphabeta\<close> for a player with tiles \<open>m_tile\<close> and \<open>m_enemyTile\<close>. The
  board is passed by reference and changed in place by \<^verbatim>\<open>board << m\<close> and \<^verbatim>\<open>board >> m\<close>
  (the results of both are ignored), so the model returns the board next to the
  pair of score and move. The remaining depth is a natural number: the search is
  modelled for the non-negative depths its callers configure. \<^verbatim>\<open>Move{}\<close> is the
  value-initialised move; \<^verbatim>\<open>positions[0]\<close> on an empty vector is undefined behaviour.

  \<open>maxLoop\<close> and \<open>minLoop\<close> are the two \<^verbatim>\<open>for\<close> loops over the positions that are left,
  with the current \<^verbatim>\<open>alpha\<close>, \<^verbatim>\<open>beta\<close>, best value and \<^verbatim>\<open>resultMove\<close>; \<open>d\<close> is the depth
  \<^verbatim>\<open>depth - 1\<close> of the recursive calls.
\<close>

definition defaultMove :: Move where
  "defaultMove = \<lparr>pos = \<lparr>vx = 0, vy = 0\<rparr>, tile = Empty\<rparr>"

function (sequential) alphabeta ::
    "Tile \<Rightarrow> Tile \<Rightarrow> Board \<Rightarrow> int \<Rightarrow> int \<Rightarrow> nat \<Rightarrow> bool \<Rightarrow> error + ((int \<times> Move) \<times> Board)"
  and maxLoop ::
    "Tile \<Rightarrow> Tile \<Rightarrow> Board \<Rightarrow> int \<Rightarrow> int \<Rightarrow> nat \<Rightarrow> bool \<Rightarrow> Tile \<Rightarrow> Vec2i list \<Rightarrow> int \<Rightarrow> Move
      \<Rightarrow> error + ((int \<times> Move) \<times> Board)"
  and minLoop ::
    "Tile \<Rightarrow> Tile \<Rightarrow> Board \<Rightarrow> int \<Rightarrow> int \<Rightarrow> nat \<Rightarrow> bool \<Rightarrow> Tile \<Rightarrow> Vec2i list \<Rightarrow> int \<Rightarrow> Move
      \<Rightarrow> error + ((int \<times> Move) \<times> Board)"
where
  "alphabeta m_tile m_enemyTile b alpha beta 0 isEnemy =
     Inr ((snd (evaluate b), defaultMove), b)"
| "alphabeta m_tile m_enemyTile b alpha beta (Suc d) isEnemy =
     (if fst (evaluate b) \<noteq> None then Inr ((snd (evaluate b), defaultMove), b)
      else
        let currentTile = (if \<not> isEnemy then m_tile else m_enemyTile);
            isMaximising = (if m_tile = Positive then (if \<not> isEnemy then True else False)
                            else (if \<not> isEnemy then False else True))
        in
        (case generateValidPositions b of
           Inl e \<Rightarrow> Inl e
         | Inr [] \<Rightarrow> Inl EmptyVectorAccess
         | Inr (p # ps) \<Rightarrow>
             if isMaximising
             then maxLoop m_tile m_enemyTile b alpha beta d isEnemy currentTile (p # ps)
                    long_min \<lparr>pos = p, tile = currentTile\<rparr>
             else minLoop m_tile m_enemyTile b alpha beta d isEnemy currentTile (p # ps)
                    long_max \<lparr>pos = p, tile = currentTile\<rparr>))"
| "maxLoop m_tile m_enemyTile b alpha beta d isEnemy currentTile [] maxValue resultMove =
     Inr ((maxValue, resultMove), b)"
| "maxLoop m_tile m_enemyTile b alpha beta d isEnemy currentTile (p # ps) maxValue resultMove =
     (let m = \<lparr>pos = p, tile = currentTile\<rparr> in
      case alphabeta m_tile m_enemyTile (snd (place b m)) alpha beta d (\<not> isEnemy) of
        Inl e \<Rightarrow> Inl e
      | Inr (res, b') \<Rightarrow>
          let b'' = snd (remove b' m);
              better = (fst res > maxValue);
              maxValue = (if better then fst res else maxValue);
              resultMove = (if better then m else resultMove);
              alpha = max alpha (fst res)
          in
          if beta \<le> alpha then Inr ((maxValue, resultMove), b'')
          else maxLoop m_tile m_enemyTile b'' alpha beta d isEnemy currentTile ps
                 maxValue resultMove)"
| "minLoop m_tile m_enemyTile b alpha beta d isEnemy currentTile [] minValue resultMove =
     Inr ((minValue, resultMove), b)"
| "minLoop m_tile m_enemyTile b alpha beta d isEnemy currentTile (p # ps) minValue resultMove =
     (let m = \<lparr>pos = p, tile = currentTile\<rparr> in
      case alphabeta m_tile m_enemyTile (snd (place b m)) alpha beta d (\<not> isEnemy) of
        Inl e \<Rightarrow> Inl e
      | Inr (res, b') \<Rightarrow>
          let b'' = snd (remove b' m);
              better = (fst res < minValue);
              minValue = (if better then fst res else minValue);
              resultMove = (if better then m else resultMove);
              beta = min beta (fst res)
          in
          if beta \<le> alpha then Inr ((minValue, resultMove), b'')
          else minLoop m_tile m_enemyTile b'' alpha beta d isEnemy currentTile ps
                 minValue resultMove)"
  by pat_completeness auto
termination
  by (relation "inv_image (less_than <*lex*> less_than) (\<lambda>c. case c of
        Inl (_, _, _, _, _, d, _) \<Rightarrow> (d, 0)
      | Inr (Inl (_, _, _, _, _, d, _, _, ps, _, _)) \<Rightarrow> (d, Suc (length ps))
      | Inr (Inr (_, _, _, _, _, d, _, _, ps, _, _)) \<Rightarrow> (d, Suc (length ps)))") auto

text \<open>
  \<^verbatim>\<open>MinimaxPlayer::getNextMove\<close>: the search runs on a copy of the board, from
  \<^verbatim>\<open>alpha = LONG_MIN\<close>, \<^verbatim>\<open>beta = LONG_MAX\<close>, for the player itself.
\<close>

definition minimaxNextMove :: "nat \<Rightarrow> Tile \<Rightarrow> Tile \<Rightarrow> Board \<Rightarrow> error + Move" where
  "minimaxNextMove m_depth m_tile m_enemyTile b =
     (case alphabeta m_tile m_enemyTile b long_min long_max m_depth False of
        Inl e \<Rightarrow> Inl e
      | Inr ((_, res), _) \<Rightarrow> Inr res)"

section \<open>Properties of boards named by the specification\<close>

text \<open>
  The data model of the specification asks of a board that a cell is occupied by at
  most one colour and that every placed piece is supported from below. Neither is a
  function of the program; they are stated here over the cells of the grid.
\<close>

definition oneColourPerCell :: "Board \<Rightarrow> bool" where
  "oneColourPerCell b \<longleftrightarrow>
     (\<forall>p \<in> set (allPositions b). \<not> (hasPiece b Positive p \<and> hasPiece b Negative p))"

definition occupied :: "Board \<Rightarrow> Vec2i \<Rightarrow> bool" where
  "occupied b p \<longleftrightarrow> tileAt b p = Some Positive \<or> tileAt b p = Some Negative"

definition supported :: "Board \<Rightarrow> bool" where
  "supported b \<longleftrightarrow>
     (\<forall>p \<in> set (allPositions b). occupied b p \<longrightarrow>
        (\<forall>r \<in> set [vy p + 1 .. rows (m_shape b) - 1]. occupied b \<lparr>vx = vx p, vy = r\<rparr>))"

text \<open>
  A drop target: an empty cell on the bottom row or directly above an occupied cell.
\<close>

definition dropTarget :: "Board \<Rightarrow> Vec2i \<Rightarrow> bool" where
  "dropTarget b p \<longleftrightarrow> tileAt b p = Some Empty \<and>
     (vy p + 1 = rows (m_shape b) \<or> occupied b \<lparr>vx = vx p, vy = vy p + 1\<rparr>)"

text \<open>The number of empty cells of a board.\<close>

definition emptyCells :: "Board \<Rightarrow> nat" where
  "emptyCells b = length (filter (\<lambda>p. tileAt b p = Some Empty) (allPositions b))"

text \<open>The board with every Positive tile replaced by a Negative one and vice versa.\<close>

definition colorSwapped :: "Board \<Rightarrow> Board" where
  "colorSwapped b =
     b\<lparr>m_positivePieces := m_negativePieces b, m_negativePieces := m_positivePieces b\<rparr>"

text \<open>How the outcome of the scan of the cells changes when the colours are exchanged.\<close>

definition swapOutcome :: "(int option \<times> int) + int \<Rightarrow> (int option \<times> int) + int" where
  "swapOutcome r = (case r of Inr s \<Rightarrow> Inr (- s)
     | Inl (v, s) \<Rightarrow> Inl (map_option uminus v, if s = long_max then long_min else long_max))"

section \<open>Boards of the scenarios\<close>

text \<open>Tiles dropped one after the other, as a game or a test would set a board up.\<close>

fun placeAll :: "Board \<Rightarrow> Move list \<Rightarrow> Board" where
  "placeAll b [] = b"
| "placeAll b (m # ms) = placeAll (snd (place b m)) ms"

text \<open>The 6 x 7 board with three Positive tiles at row 5, columns 0, 1 and 2.\<close>

definition threeInRow :: Board where
  "threeInRow = placeAll (emptyBoard 6 7)
     [\<lparr>pos = \<lparr>vx = 0, vy = 5\<rparr>, tile = Positive\<rparr>,
      \<lparr>pos = \<lparr>vx = 1, vy = 5\<rparr>, tile = Positive\<rparr>,
      \<lparr>pos = \<lparr>vx = 2, vy = 5\<rparr>, tile = Positive\<rparr>]"

text \<open>
  The board after the fifteen plies in which both players of a search from \<open>threeInRow\<close>
  always drop in the first column that is not full: columns 0, 1 and 2 are full, column
  3 is empty.
\<close>

definition leftmostLine :: Board where
  "leftmostLine = placeAll threeInRow
     [\<lparr>pos = \<lparr>vx = 0, vy = 4\<rparr>, tile = Positive\<rparr>, \<lparr>pos = \<lparr>vx = 0, vy = 3\<rparr>, tile = Negative\<rparr>,
      \<lparr>pos = \<lparr>vx = 0, vy = 2\<rparr>, tile = Positive\<rparr>, \<lparr>pos = \<lparr>vx = 0, vy = 1\<rparr>, tile = Negative\<rparr>,
      \<lparr>pos = \<lparr>vx = 0, vy = 0\<rparr>, tile = Positive\<rparr>, \<lparr>pos = \<lparr>vx = 1, vy = 4\<rparr>, tile = Negative\<rparr>,
      \<lparr>pos = \<lparr>vx = 1, vy = 3\<rparr>, tile = Positive\<rparr>, \<lparr>pos = \<lparr>vx = 1, vy = 2\<rparr>, tile = Negative\<rparr>,
      \<lparr>pos = \<lparr>vx = 1, vy = 1\<rparr>, tile = Positive\<rparr>, \<lparr>pos = \<lparr>vx = 1, vy = 0\<rparr>, tile = Negative\<rparr>,
      \<lparr>pos = \<lparr>vx = 2, vy = 4\<rparr>, tile = Positive\<rparr>, \<lparr>pos = \<lparr>vx = 2, vy = 3\<rparr>, tile = Negative\<rparr>,
      \<lparr>pos = \<lparr>vx = 2, vy = 2\<rparr>, tile = Positive\<rparr>, \<lparr>pos = \<lparr>vx = 2, vy = 1\<rparr>, tile = Negative\<rparr>,
      \<lparr>pos = \<lparr>vx = 2, vy = 0\<rparr>, tile = Positive\<rparr>]"

section \<open>What the search returns\<close>

text \<open>
  The heuristic score adds at most 4000 in magnitude for every cell. \<open>scoreFits\<close> says that
  the scores of a board of this shape are inside the range of \<^verbatim>\<open>long\<close>, as they are for
  every shape the repository instantiates.
\<close>

definition scoreFits :: "Board \<Rightarrow> bool" where
  "scoreFits b \<longleftrightarrow> 4000 * int (length (allPositions b)) \<le> long_max"

text \<open>
  A result of \<^verbatim>\<open>alphabeta\<close> on the board \<open>b\<close> that is in order: the only failure is the read of
  an empty vector, and a search that returns has undone all its moves and returns a value
  of the range of \<^verbatim>\<open>long\<close>.
\<close>

definition searchOk :: "Board \<Rightarrow> error + ((int \<times> Move) \<times> Board) \<Rightarrow> bool" where
  "searchOk b res =
     (case res of
        Inl e \<Rightarrow> e = EmptyVectorAccess
      | Inr ((v, m), b') \<Rightarrow> b' = b \<and> long_min \<le> v \<and> v \<le> long_max)"

text \<open>
  The results that are a failure or have a value of at least \<^verbatim>\<open>LONG_MAX\<close>, the score of a
  line of four Positive tiles; \<open>winMove\<close> also bounds the move returned.
\<close>

definition winValue :: "error + ((int \<times> Move) \<times> Board) \<Rightarrow> bool" where
  "winValue res = (case res of Inl e \<Rightarrow> True | Inr ((v, m), b') \<Rightarrow> long_max \<le> v)"

definition winMove :: "Move set \<Rightarrow> error + ((int \<times> Move) \<times> Board) \<Rightarrow> bool" where
  "winMove M res = (case res of Inl e \<Rightarrow> True | Inr ((v, m), b') \<Rightarrow> long_max \<le> v \<and> m \<in> M)"

subsection \<open>Forced wins\<close>





section \<open>Facts about the bit sets\<close>

lemma index_less_n_elems:
  assumes "isValidPosition b p"
  shows "index b p < n_elems b"
proof -
  from assms have x: "0 \<le> vx p" "vx p < cols (m_shape b)"
    and y: "0 \<le> vy p" "vy p < rows (m_shape b)"
    by (auto simp: isValidPosition_def)
  have "vy p + 1 \<le> rows (m_shape b)" using y by simp
  then have "(vy p + 1) * cols (m_shape b) \<le> rows (m_shape b) * cols (m_shape b)"
    using x by (intro mult_right_mono) auto
  then have "vy p * cols (m_shape b) + vx p < rows (m_shape b) * cols (m_shape b)"
    using x by (simp add: algebra_simps)
  moreover have "0 \<le> vy p * cols (m_shape b) + vx p" using x y by simp
  ultimately show ?thesis by (simp add: index_def n_elems_def)
qed

lemma testPiece_bit: "testPiece v i \<longleftrightarrow> bit v i"
  by (simp add: testPiece_def bitset_shr_def bit_iff_and_drop_bit_eq_1)

lemma bit_mask_shl: "bit (bitset_shl n 1 k) j \<longleftrightarrow> j = k \<and> k < n"
  by (auto simp: bitset_shl_def bit_simps)

lemma bit_remove_mask:
  "bit (bitset_not n (bitset_shl n 1 k)) j \<longleftrightarrow> j < n \<and> j \<noteq> k"
  by (auto simp: bitset_not_def bit_simps bit_mask_shl)

lemma place_shape [simp]: "m_shape (snd (place b m)) = m_shape b"
  by (simp add: place_def Let_def split: Tile.splits)

lemma remove_shape [simp]: "m_shape (snd (remove b m)) = m_shape b"
  by (simp add: remove_def Let_def split: Tile.splits)

lemma n_elems_cong: "m_shape b' = m_shape b \<Longrightarrow> n_elems b' = n_elems b"
  by (simp add: n_elems_def)

lemma index_cong: "m_shape b' = m_shape b \<Longrightarrow> index b' p = index b p"
  by (simp add: index_def)

lemma isValidPosition_cong:
  "m_shape b' = m_shape b \<Longrightarrow> isValidPosition b' p = isValidPosition b p"
  by (simp add: isValidPosition_def)

lemmas board_eval =
  place_def remove_def tileAt_def isValidPosition_def index_def n_elems_def emptyBoard_def
  bitset_shl_def bitset_shr_def bitset_not_def testPiece_def hasPiece_def Let_def

section \<open>The cells of the grid\<close>

lemma set_allPositions: "set (allPositions b) = {p. isValidPosition b p}"
proof -
  have "p \<in> set (allPositions b) \<longleftrightarrow> isValidPosition b p" for p
  proof
    assume "p \<in> set (allPositions b)"
    then show "isValidPosition b p"
      by (auto simp: allPositions_def isValidPosition_def)
  next
    assume v: "isValidPosition b p"
    have "\<exists>r\<in>{0 .. rows (m_shape b) - 1}. \<exists>c\<in>{0 .. cols (m_shape b) - 1}. p = \<lparr>vx = c, vy = r\<rparr>"
      using v by (intro bexI [of _ "vy p"] bexI [of _ "vx p"]) (auto simp: isValidPosition_def)
    then show "p \<in> set (allPositions b)"
      unfolding allPositions_def by (simp add: image_iff)
  qed
  then show ?thesis by blast
qed

lemma index_inj:
  assumes "isValidPosition b p" and "isValidPosition b q" and "index b p = index b q"
  shows "p = q"
proof -
  let ?c = "cols (m_shape b)"
  from assms(1) have p: "0 \<le> vx p" "vx p < ?c" "0 \<le> vy p" by (auto simp: isValidPosition_def)
  from assms(2) have q: "0 \<le> vx q" "vx q < ?c" "0 \<le> vy q" by (auto simp: isValidPosition_def)
  have "0 \<le> vy p * ?c + vx p" "0 \<le> vy q * ?c + vx q" using p q by simp_all
  with assms(3) have eq: "vy p * ?c + vx p = vy q * ?c + vx q"
    by (simp add: index_def)
  have "(vy p * ?c + vx p) div ?c = vy p" "(vy p * ?c + vx p) mod ?c = vx p"
    using p by simp_all
  moreover have "(vy q * ?c + vx q) div ?c = vy q" "(vy q * ?c + vx q) mod ?c = vx q"
    using q by simp_all
  ultimately have "vy p = vy q" "vx p = vx q" using eq by simp_all
  then show ?thesis by simp
qed

lemma hasPiece_place:
  assumes "fst (place b m)" and "isValidPosition b q"
  shows "hasPiece (snd (place b m)) t q \<longleftrightarrow> hasPiece b t q \<or> (t = tile m \<and> q = pos m)"
proof -
  from assms(1) have v: "isValidPosition b (pos m)"
    by (auto simp: place_def split: if_splits)
  have k: "index b (pos m) < n_elems b" by (rule index_less_n_elems [OF v])
  have inj: "index b q = index b (pos m) \<longleftrightarrow> q = pos m"
    using index_inj [OF assms(2) v] by auto
  from assms(1) v have "tile m = Positive \<or> tile m = Negative"
    by (auto simp: place_def Let_def split: if_splits Tile.splits)
  then show ?thesis
  proof
    assume p: "tile m = Positive"
    with assms(1) v have eq: "snd (place b m) =
        b\<lparr>m_positivePieces := m_positivePieces b OR bitset_shl (n_elems b) 1 (index b (pos m))\<rparr>"
      by (auto simp: place_def Let_def split: if_splits)
    show ?thesis using k inj p
      by (cases t) (auto simp: eq hasPiece_def testPiece_bit index_def bit_simps bit_mask_shl)
  next
    assume p: "tile m = Negative"
    with assms(1) v have eq: "snd (place b m) =
        b\<lparr>m_negativePieces := m_negativePieces b OR bitset_shl (n_elems b) 1 (index b (pos m))\<rparr>"
      by (auto simp: place_def Let_def split: if_splits)
    show ?thesis using k inj p
      by (cases t) (auto simp: eq hasPiece_def testPiece_bit index_def bit_simps bit_mask_shl)
  qed
qed

lemma occupied_hasPiece:
  "occupied b p \<longleftrightarrow> isValidPosition b p \<and> (hasPiece b Positive p \<or> hasPiece b Negative p)"
  by (auto simp: occupied_def tileAt_def hasPiece_def)

lemma occupied_place:
  assumes "fst (place b m)"
  shows "occupied (snd (place b m)) q \<longleftrightarrow> occupied b q \<or> q = pos m"
proof -
  from assms have v: "isValidPosition b (pos m)"
    and t: "tile m = Positive \<or> tile m = Negative"
    by (auto simp: place_def Let_def split: if_splits Tile.splits)
  have vq: "isValidPosition (snd (place b m)) q = isValidPosition b q"
    by (rule isValidPosition_cong) simp
  show ?thesis
  proof (cases "isValidPosition b q")
    case True
    then show ?thesis using t by (auto simp: occupied_hasPiece vq hasPiece_place [OF assms True])
  next
    case False
    with v show ?thesis by (auto simp: occupied_hasPiece vq)
  qed
qed

lemma supportedD:
  assumes "supported b" and "occupied b p" and "vy p < r" and "r < rows (m_shape b)"
  shows "occupied b \<lparr>vx = vx p, vy = r\<rparr>"
proof -
  from assms(2) have "p \<in> set (allPositions b)"
    by (simp add: set_allPositions occupied_hasPiece)
  with assms(1,2) have "\<forall>r \<in> set [vy p + 1 .. rows (m_shape b) - 1]. occupied b \<lparr>vx = vx p, vy = r\<rparr>"
    unfolding supported_def by blast
  moreover from assms(3,4) have "r \<in> set [vy p + 1 .. rows (m_shape b) - 1]" by simp
  ultimately show ?thesis by blast
qed

lemma supportedI:
  assumes "\<And>p r. occupied b p \<Longrightarrow> vy p < r \<Longrightarrow> r < rows (m_shape b)
             \<Longrightarrow> occupied b \<lparr>vx = vx p, vy = r\<rparr>"
  shows "supported b"
  unfolding supported_def using assms by simp

lemma allPositions_place [simp]: "allPositions (snd (place b m)) = allPositions b"
  by (simp add: allPositions_def)

lemma tileAt_Some_valid: "tileAt b p = Some t \<Longrightarrow> isValidPosition b p"
  by (auto simp: tileAt_def split: if_splits)

lemma not_Empty_occupied:
  "isValidPosition b p \<Longrightarrow> tileAt b p \<noteq> Some Empty \<Longrightarrow> occupied b p"
  by (auto simp: tileAt_def occupied_def split: if_splits)

section \<open>What the loops of the move generator compute\<close>

lemma findLevel_None:
  "findLevel b x [l .. h] = None \<Longrightarrow> l \<le> r \<Longrightarrow> r \<le> h
     \<Longrightarrow> tileAt b \<lparr>vx = x, vy = r\<rparr> = Some Empty"
proof (induction l h rule: upto.induct)
  case (1 l h)
  from "1.prems" have lh: "l \<le> h" by simp
  then have unf: "[l .. h] = l # [l + 1 .. h]" by (simp add: upto_rec1)
  from "1.prems"(1) have here: "tileAt b \<lparr>vx = x, vy = l\<rparr> = Some Empty"
    and rest: "findLevel b x [l + 1 .. h] = None"
    by (auto simp: unf split: if_splits)
  show ?case
  proof (cases "r = l")
    case True
    with here show ?thesis by simp
  next
    case False
    with "1.prems" have "l + 1 \<le> r" by simp
    from "1.IH" [OF lh rest this "1.prems"(3)] show ?thesis .
  qed
qed

lemma findLevel_Some:
  "findLevel b x [l .. h] = Some p \<Longrightarrow>
     vx p = x \<and> l \<le> vy p + 1 \<and> vy p + 1 \<le> h \<and>
     tileAt b \<lparr>vx = x, vy = vy p + 1\<rparr> \<noteq> Some Empty \<and>
     (\<forall>r. l \<le> r \<and> r \<le> vy p \<longrightarrow> tileAt b \<lparr>vx = x, vy = r\<rparr> = Some Empty)"
proof (induction l h rule: upto.induct)
  case (1 l h)
  from "1.prems" have lh: "l \<le> h" by (cases "l \<le> h") (auto simp: upto.simps)
  then have unf: "[l .. h] = l # [l + 1 .. h]" by (simp add: upto_rec1)
  show ?case
  proof (cases "tileAt b \<lparr>vx = x, vy = l\<rparr> \<noteq> Some Empty")
    case True
    with "1.prems" have "p = \<lparr>vx = x, vy = l - 1\<rparr>" by (simp add: unf)
    with True lh show ?thesis by auto
  next
    case False
    with "1.prems" have "findLevel b x [l + 1 .. h] = Some p" by (simp add: unf)
    from "1.IH" [OF lh this]
    have a: "vx p = x" "l + 1 \<le> vy p + 1" "vy p + 1 \<le> h"
        "tileAt b \<lparr>vx = x, vy = vy p + 1\<rparr> \<noteq> Some Empty"
      and rest: "\<And>r. l + 1 \<le> r \<Longrightarrow> r \<le> vy p \<Longrightarrow> tileAt b \<lparr>vx = x, vy = r\<rparr> = Some Empty"
      by simp_all
    have "tileAt b \<lparr>vx = x, vy = r\<rparr> = Some Empty" if r: "l \<le> r" "r \<le> vy p" for r
    proof (cases "r = l")
      case True
      with False show ?thesis by simp
    next
      case False
      with r have "l + 1 \<le> r" by simp
      from rest [OF this r(2)] show ?thesis .
    qed
    with a show ?thesis by simp
  qed
qed

lemma genLoop_Inr:
  assumes "genLoop b xs res = Inr out"
    and "\<forall>p \<in> set res. vx p \<notin> set xs" and "distinct xs"
  shows "\<exists>new. out = res @ new \<and>
           map vx new = filter (\<lambda>x. tileAt b \<lparr>vx = x, vy = 0\<rparr> = Some Empty) xs \<and>
           (\<forall>p \<in> set new. dropTarget b p)"
  using assms
proof (induction xs arbitrary: res)
  case Nil
  then show ?case by simp
next
  case (Cons x xs)
  let ?top = "tileAt b \<lparr>vx = x, vy = 0\<rparr>"
  show ?case
  proof (cases "?top = Some Empty")
    case False
    with Cons.prems have "genLoop b xs res = Inr out" by simp
    from Cons.IH [OF this] Cons.prems(2,3) False show ?thesis by auto
  next
    case True
    then have v0: "isValidPosition b \<lparr>vx = x, vy = 0\<rparr>" by (rule tileAt_Some_valid)
    then have col: "0 \<le> x" "x < cols (m_shape b)" and row: "0 < rows (m_shape b)"
      by (auto simp: isValidPosition_def)
    show ?thesis
    proof (cases "findLevel b x [1 .. rows (m_shape b) - 1]")
      case (Some p)
      from findLevel_Some [OF Some]
      have p: "vx p = x" "0 \<le> vy p" "vy p + 1 \<le> rows (m_shape b) - 1"
        "tileAt b \<lparr>vx = x, vy = vy p + 1\<rparr> \<noteq> Some Empty"
        "\<forall>r. 1 \<le> r \<and> r \<le> vy p \<longrightarrow> tileAt b \<lparr>vx = x, vy = r\<rparr> = Some Empty"
        by auto
      have "tileAt b \<lparr>vx = x, vy = vy p\<rparr> = Some Empty"
        using True p(2,5) by (cases "vy p = 0") auto
      moreover have "p = \<lparr>vx = x, vy = vy p\<rparr>" using p(1) by simp
      ultimately have e: "tileAt b p = Some Empty" by simp
      have "isValidPosition b \<lparr>vx = x, vy = vy p + 1\<rparr>"
        using col p(2,3) by (simp add: isValidPosition_def)
      from not_Empty_occupied [OF this p(4)] e p(1) have dt: "dropTarget b p"
        by (simp add: dropTarget_def)
      from Cons.prems(1) True Some p(1) have run: "genLoop b xs (res @ [p]) = Inr out" by simp
      have inv: "\<forall>q \<in> set (res @ [p]). vx q \<notin> set xs"
        using Cons.prems(2,3) p(1) by auto
      from Cons.prems(3) have "distinct xs" by simp
      from Cons.IH [OF run inv this] obtain new where "out = (res @ [p]) @ new"
        "map vx new = filter (\<lambda>x. tileAt b \<lparr>vx = x, vy = 0\<rparr> = Some Empty) xs"
        "\<forall>q \<in> set new. dropTarget b q"
        by blast
      with True dt p(1) show ?thesis
        by (intro exI [of _ "p # new"]) simp
    next
      case None
      let ?p = "\<lparr>vx = x, vy = rows (m_shape b) - 1\<rparr>"
      from Cons.prems(1) True None have ne: "res \<noteq> []" by (auto split: if_splits)
      then have "last res \<in> set res" by simp
      with Cons.prems(2) have "vx (last res) \<noteq> x" by auto
      with Cons.prems(1) True None ne have run: "genLoop b xs (res @ [?p]) = Inr out" by simp
      have "tileAt b ?p = Some Empty"
      proof (cases "rows (m_shape b) - 1 = 0")
        case True
        with \<open>?top = Some Empty\<close> show ?thesis by simp
      next
        case False
        with row have "1 \<le> rows (m_shape b) - 1" by simp
        from findLevel_None [OF None this order_refl] show ?thesis .
      qed
      then have dt: "dropTarget b ?p" by (simp add: dropTarget_def)
      have inv: "\<forall>q \<in> set (res @ [?p]). vx q \<notin> set xs"
        using Cons.prems(2,3) by auto
      from Cons.prems(3) have "distinct xs" by simp
      from Cons.IH [OF run inv this] obtain new where "out = (res @ [?p]) @ new"
        "map vx new = filter (\<lambda>x. tileAt b \<lparr>vx = x, vy = 0\<rparr> = Some Empty) xs"
        "\<forall>q \<in> set new. dropTarget b q"
        by blast
      with True dt show ?thesis
        by (intro exI [of _ "?p # new"]) simp
    qed
  qed
qed

lemma generateValidPositions_empty_cell:
  assumes "generateValidPositions b = Inr ps" and "p \<in> set ps"
  shows "tileAt b p = Some Empty"
  using genLoop_Inr [of b "[0 .. cols (m_shape b) - 1]" "[]" ps] assms
  by (auto simp: generateValidPositions_def dropTarget_def)

lemma tileAt_place:
  assumes "fst (place b m)"
  shows "tileAt (snd (place b m)) q = Some Empty \<longleftrightarrow> tileAt b q = Some Empty \<and> q \<noteq> pos m"
proof (cases "isValidPosition b q")
  case False
  then have "tileAt b q = None" "tileAt (snd (place b m)) q = None"
    by (simp_all add: tileAt_def isValidPosition_cong [OF place_shape])
  then show ?thesis by simp
next
  case True
  have e: "tileAt c q = Some Empty \<longleftrightarrow>
      isValidPosition c q \<and> \<not> hasPiece c Positive q \<and> \<not> hasPiece c Negative q" for c
    by (auto simp: tileAt_def hasPiece_def)
  from assms have "tile m = Positive \<or> tile m = Negative"
    by (auto simp: place_def Let_def split: if_splits Tile.splits)
  then show ?thesis
    unfolding e using True
    by (auto simp: hasPiece_place [OF assms True] isValidPosition_cong [OF place_shape])
qed

lemma emptyCells_place:
  assumes "fst (place b m)" and "tileAt b (pos m) = Some Empty"
  shows "emptyCells (snd (place b m)) < emptyCells b"
proof -
  let ?E = "\<lambda>p. tileAt b p = Some Empty"
  have "pos m \<in> set (filter ?E (allPositions b))"
    using assms(2) by (simp add: set_allPositions tileAt_Some_valid)
  then have "length (filter (\<lambda>q. q \<noteq> pos m) (filter ?E (allPositions b)))
      < length (filter ?E (allPositions b))"
    by (intro length_filter_less [of "pos m"]) simp_all
  moreover have "filter (\<lambda>q. q \<noteq> pos m) (filter ?E (allPositions b))
      = filter (\<lambda>p. tileAt (snd (place b m)) p = Some Empty) (allPositions b)"
    by (auto simp: tileAt_place [OF assms(1)] intro: filter_cong)
  ultimately show ?thesis by (simp add: emptyCells_def)
qed

section \<open>Properties of the search\<close>

subsection \<open>Undoing a move\<close>





subsection \<open>Failures and the range of the score\<close>



lemma scoreFits_place [simp]: "scoreFits (snd (place b m)) = scoreFits b"
  by (simp add: scoreFits_def)







lemma searchOk_simps [simp]:
  "searchOk b (Inl e) \<longleftrightarrow> e = EmptyVectorAccess"
  "searchOk b (Inr ((v, m), b')) \<longleftrightarrow> b' = b \<and> long_min \<le> v \<and> v \<le> long_max"
  by (simp_all add: searchOk_def)





subsection \<open>Forced wins are found\<close>

lemma winValue_simps [simp]:
  "winValue (Inl e)"
  "winValue (Inr ((v, m), b')) \<longleftrightarrow> long_max \<le> v"
  by (simp_all add: winValue_def)

lemma winMove_simps [simp]:
  "winMove M (Inl e)"
  "winMove M (Inr ((v, m), b')) \<longleftrightarrow> long_max \<le> v \<and> m \<in> M"
  by (simp_all add: winMove_def)









section \<open>Monte Carlo tree search\<close>

text \<open>
  \<^verbatim>\<open>class MonteCarloNode\<close>. The fields other than the children are the record \<open>NodeData\<close>.
  The map \<^verbatim>\<open>children\<close> is the list of its entries in the order of their insertion. The
  pointer \<^verbatim>\<open>m_parent\<close> is not a field of the model: a pointer to a node of the tree is
  the list of the moves that lead to it from the root, and its parent is that list
  without the last move.
\<close>

record NodeData =
  visits :: int
  wins :: int
  m_board :: Board
  m_isTerminal :: bool
  m_winState :: int
  m_turn :: Tile
  m_maxChildren :: int
  m_isFullyExpanded :: bool

datatype MonteCarloNode =
  MonteCarloNode (nodeData: NodeData) (children: "(Move \<times> MonteCarloNode) list")

definition setData :: "MonteCarloNode \<Rightarrow> NodeData \<Rightarrow> MonteCarloNode" where
  "setData node d = MonteCarloNode d (children node)"

text \<open>
  What the C++ leaves to the platform: the order in which a \<^verbatim>\<open>std::unordered_map\<close> with
  the given keys (in insertion order) is iterated, the \<^verbatim>\<open>float\<close> arithmetic of the UCT
  value (from \<^verbatim>\<open>child->wins\<close>, \<^verbatim>\<open>child->visits\<close>, \<^verbatim>\<open>node->visits\<close> and \<^verbatim>\<open>m_c\<close>), the
  comparison \<^verbatim>\<open>val > maxVal\<close>, the constant \<^verbatim>\<open>-std::numeric_limits<float>::max()\<close>, and the
  values that successive calls of \<^verbatim>\<open>rand()\<close> return.
\<close>

record 'f Platform =
  iterationOrder :: "Move list \<Rightarrow> Move list"
  uctValue :: "int \<Rightarrow> int \<Rightarrow> int \<Rightarrow> int \<Rightarrow> 'f"
  floatGreater :: "'f \<Rightarrow> 'f \<Rightarrow> bool"
  lowestFloat :: 'f
  rand :: "nat \<Rightarrow> nat"

text \<open>The constructor \<^verbatim>\<open>MonteCarloNode(t_turn, t_board)\<close>.\<close>

definition newNode :: "Tile \<Rightarrow> Board \<Rightarrow> error + MonteCarloNode" where
  "newNode t_turn t_board =
     (case generateValidPositions t_board of
        Inl e \<Rightarrow> Inl e
      | Inr positions \<Rightarrow>
          Inr (MonteCarloNode
                 \<lparr>visits = 0, wins = 0, m_board = t_board, m_isTerminal = False, m_winState = 0,
                  m_turn = t_turn, m_maxChildren = int (length positions),
                  m_isFullyExpanded = False\<rparr> []))"

text \<open>
  The member functions that change the node return it next to their result.
\<close>

definition isTerminal :: "MonteCarloNode \<Rightarrow> bool \<times> MonteCarloNode" where
  "isTerminal node =
     (let d = nodeData node in
      if \<not> m_isTerminal d then
        (case fst (evaluate (m_board d)) of
           None \<Rightarrow> (False, setData node (d\<lparr>m_isTerminal := False\<rparr>))
         | Some v \<Rightarrow> (True, setData node (d\<lparr>m_isTerminal := True, m_winState := v\<rparr>)))
      else (True, node))"

definition isFullyExpanded :: "MonteCarloNode \<Rightarrow> bool \<times> MonteCarloNode" where
  "isFullyExpanded node =
     (let d = nodeData node in
      if \<not> m_isFullyExpanded d \<and> m_maxChildren d = int (length (children node))
      then (True, setData node (d\<lparr>m_isFullyExpanded := True\<rparr>))
      else (m_isFullyExpanded d, node))"

definition getWinState :: "MonteCarloNode \<Rightarrow> int \<times> MonteCarloNode" where
  "getWinState node = (let (_, node') = isTerminal node in (m_winState (nodeData node'), node'))"

definition applyMove :: "MonteCarloNode \<Rightarrow> Move \<Rightarrow> error + (bool \<times> MonteCarloNode)" where
  "applyMove node move =
     (let (ok, b') = place (m_board (nodeData node)) move;
          node = setData node ((nodeData node)\<lparr>m_board := b'\<rparr>)
      in
      if ok then
        (case generateValidPositions b' of
           Inl e \<Rightarrow> Inl e
         | Inr positions \<Rightarrow>
             let node = setData node ((nodeData node)\<lparr>m_maxChildren := int (length positions)\<rparr>);
                 (_, node) = isTerminal node;
                 (_, node) = isFullyExpanded node;
                 node = setData node ((nodeData node)\<lparr>m_turn := getEnemyTile (m_turn (nodeData node))\<rparr>)
             in Inr (True, node))
      else Inr (False, node))"

text \<open>
  \<^verbatim>\<open>children[move] = newNode\<close>: the entry of the key is overwritten, or a new entry is
  added.
\<close>

fun storeChild ::
  "Move \<Rightarrow> MonteCarloNode \<Rightarrow> (Move \<times> MonteCarloNode) list \<Rightarrow> (Move \<times> MonteCarloNode) list" where
  "storeChild move c [] = [(move, c)]"
| "storeChild move c ((k, c') # cs) =
     (if k = move then (k, c) # cs else (k, c') # storeChild move c cs)"

definition getChildForMove :: "MonteCarloNode \<Rightarrow> Move \<Rightarrow> MonteCarloNode option" where
  "getChildForMove node move = map_of (children node) move"

definition getExpandedMoves :: "'f Platform \<Rightarrow> MonteCarloNode \<Rightarrow> Move list" where
  "getExpandedMoves P node = iterationOrder P (map fst (children node))"

text \<open>\<^verbatim>\<open>createChild\<close> returns the node with its new child; the new node is the child at \<open>move\<close>.\<close>

definition createChild :: "MonteCarloNode \<Rightarrow> Move \<Rightarrow> error + MonteCarloNode" where
  "createChild node move =
     (case newNode (m_turn (nodeData node)) (m_board (nodeData node)) of
        Inl e \<Rightarrow> Inl e
      | Inr created \<Rightarrow>
          (case applyMove created move of
             Inl e \<Rightarrow> Inl e
           | Inr (_, created) \<Rightarrow>
               Inr (MonteCarloNode (nodeData node) (storeChild move created (children node)))))"

subsection \<open>The player\<close>

text \<open>
  \<^verbatim>\<open>bestUCT\<close>: the loop over \<^verbatim>\<open>allMoves\<close> with the current \<^verbatim>\<open>maxVal\<close> and \<^verbatim>\<open>res\<close>; \<open>None\<close> is
  the value-initialised pair, whose node pointer is null. The node of the result is
  the child at the move.
\<close>

fun bestUCT_loop ::
  "'f Platform \<Rightarrow> int \<Rightarrow> MonteCarloNode \<Rightarrow> Move list \<Rightarrow> 'f \<Rightarrow> Move option \<Rightarrow> error + Move option" where
  "bestUCT_loop P m_c node [] maxVal res = Inr res"
| "bestUCT_loop P m_c node (move # moves) maxVal res =
     (case getChildForMove node move of
        None \<Rightarrow> Inl BadOptionalAccess
      | Some child \<Rightarrow>
          let val = uctValue P (wins (nodeData child)) (visits (nodeData child))
                      (visits (nodeData node)) m_c
          in
          if floatGreater P val maxVal then bestUCT_loop P m_c node moves val (Some move)
          else bestUCT_loop P m_c node moves maxVal res)"

definition bestUCT :: "'f Platform \<Rightarrow> int \<Rightarrow> MonteCarloNode \<Rightarrow> error + Move option" where
  "bestUCT P m_c node = bestUCT_loop P m_c node (getExpandedMoves P node) (lowestFloat P) None"

text \<open>
  \<^verbatim>\<open>expand\<close>: the move of the child that was created (\<open>None\<close> for the null pointer) and the
  node with that child.
\<close>

definition expand :: "MonteCarloNode \<Rightarrow> error + (Move option \<times> MonteCarloNode)" where
  "expand node =
     (case generateValidPositions (m_board (nodeData node)) of
        Inl e \<Rightarrow> Inl e
      | Inr positions \<Rightarrow>
          (case find (\<lambda>p. getChildForMove node \<lparr>pos = p, tile = m_turn (nodeData node)\<rparr> = None)
                  positions of
             None \<Rightarrow> Inr (None, node)
           | Some p \<Rightarrow>
               (case createChild node \<lparr>pos = p, tile = m_turn (nodeData node)\<rparr> of
                  Inl e \<Rightarrow> Inl e
                | Inr node' \<Rightarrow> Inr (Some \<lparr>pos = p, tile = m_turn (nodeData node)\<rparr>, node'))))"

text \<open>
  \<^verbatim>\<open>traverse\<close>: the loop descends from a node into one of its children, so it is a
  recursion over the tree; the lemmas below are what its termination rests on. The
  result is the pointer to the leaf, relative to the node the call started from (\<open>None\<close>
  is the null pointer), and the tree with the changes made on the way. \<^verbatim>\<open>res.second\<close> is
  the node the loop stands on, except before the first descent, where it is null:
  \<open>traverse\<close> turns the empty path of \<open>traverse_rec\<close> into \<open>None\<close>.
\<close>

lemma children_isTerminal [simp]: "children (snd (isTerminal n)) = children n"
  by (simp add: isTerminal_def setData_def Let_def split: option.splits)

lemma children_isFullyExpanded [simp]: "children (snd (isFullyExpanded n)) = children n"
  by (simp add: isFullyExpanded_def setData_def Let_def)

lemma size_list_member:
  "(k, c) \<in> set cs \<Longrightarrow> size c < Suc (size_list (size_prod (\<lambda>x. 0) size) cs)"
  by (induction cs) auto

lemma size_child: "map_of (children n) k = Some c \<Longrightarrow> size c < size n"
  using size_list_member [OF map_of_SomeD, of "children n" k c] by (cases n) simp

lemma size_children_cong: "children a = children b \<Longrightarrow> size a = size b"
  by (cases a; cases b) simp

function traverse_rec ::
  "'f Platform \<Rightarrow> int \<Rightarrow> MonteCarloNode \<Rightarrow> error + (Move list option \<times> MonteCarloNode)" where
  "traverse_rec P m_c node =
     (case isTerminal node of
        (True, node) \<Rightarrow> Inr (Some [], node)
      | (False, node) \<Rightarrow>
          (case isFullyExpanded node of
             (False, node) \<Rightarrow>
               (case expand node of
                  Inl e \<Rightarrow> Inl e
                | Inr (None, node) \<Rightarrow> Inr (None, node)
                | Inr (Some move, node) \<Rightarrow> Inr (Some [move], node))
           | (True, node) \<Rightarrow>
               (case bestUCT P m_c node of
                  Inl e \<Rightarrow> Inl e
                | Inr None \<Rightarrow> Inl NullPointer
                | Inr (Some move) \<Rightarrow>
                    (case getChildForMove node move of
                       None \<Rightarrow> Inl NullPointer
                     | Some child \<Rightarrow>
                         (case traverse_rec P m_c child of
                            Inl e \<Rightarrow> Inl e
                          | Inr (leaf, child') \<Rightarrow>
                              Inr (map_option ((#) move) leaf,
                                   MonteCarloNode (nodeData node)
                                     (storeChild move child' (children node))))))))"
  by pat_completeness auto
termination
proof (relation "measure (\<lambda>(P, m_c, node). size node)", goal_cases)
  case 1
  show ?case by simp
next
  case (2 P m_c node x y xa ya b x2 x2a)
  from 2(1) have "y = snd (isTerminal node)" by (simp add: prod_eq_iff)
  moreover from 2(3) have "ya = snd (isFullyExpanded y)" by (simp add: prod_eq_iff)
  ultimately have "children ya = children node" by simp
  then have "size ya = size node" by (rule size_children_cong)
  moreover from 2(7) have "size x2a < size ya"
    by (simp add: getChildForMove_def size_child)
  ultimately show ?case by simp
qed

definition traverse ::
  "'f Platform \<Rightarrow> int \<Rightarrow> MonteCarloNode \<Rightarrow> error + (Move list option \<times> MonteCarloNode)" where
  "traverse P m_c root =
     (case traverse_rec P m_c root of
        Inl e \<Rightarrow> Inl e
      | Inr (Some [], root') \<Rightarrow> Inr (None, root')
      | Inr (leaf, root') \<Rightarrow> Inr (leaf, root'))"

text \<open>\<^verbatim>\<open>playoutPolicy\<close> with the number \<open>k\<close> of calls of \<^verbatim>\<open>rand()\<close> made before.\<close>

definition playoutPolicy :: "'f Platform \<Rightarrow> nat \<Rightarrow> MonteCarloNode \<Rightarrow> error + Move" where
  "playoutPolicy P k node =
     (case generateValidPositions (m_board (nodeData node)) of
        Inl e \<Rightarrow> Inl e
      | Inr moves \<Rightarrow>
          if moves = [] then Inl DivisionByZero
          else Inr \<lparr>pos = moves ! (rand P k mod length moves), tile = m_turn (nodeData node)\<rparr>)"

lemma board_isTerminal [simp]:
  "m_board (nodeData (snd (isTerminal n))) = m_board (nodeData n)"
  by (simp add: isTerminal_def setData_def Let_def split: option.splits)

lemma board_isFullyExpanded [simp]:
  "m_board (nodeData (snd (isFullyExpanded n))) = m_board (nodeData n)"
  by (simp add: isFullyExpanded_def setData_def Let_def)

lemma playoutPolicy_empty_cell:
  assumes "playoutPolicy P k n = Inr move"
  shows "tileAt (m_board (nodeData n)) (pos move) = Some Empty"
proof -
  from assms obtain moves where g: "generateValidPositions (m_board (nodeData n)) = Inr moves"
    and ne: "moves \<noteq> []" and mv: "pos move = moves ! (rand P k mod length moves)"
    by (auto simp: playoutPolicy_def split: sum.splits if_splits)
  from ne have "moves ! (rand P k mod length moves) \<in> set moves" by simp
  with generateValidPositions_empty_cell [OF g] mv show ?thesis by simp
qed

lemma nodeData_setData [simp]: "nodeData (setData n d) = d"
  by (simp add: setData_def)

lemma children_setData [simp]: "children (setData n d) = children n"
  by (simp add: setData_def)

lemma applyMove_True:
  assumes "applyMove n move = Inr (True, n')"
  shows "fst (place (m_board (nodeData n)) move) \<and>
         m_board (nodeData n') = snd (place (m_board (nodeData n)) move)"
  using assms
  by (auto simp: applyMove_def Let_def case_prod_beta split: sum.splits if_splits)

text \<open>
  The loop \<^verbatim>\<open>while (!simNode->isTerminal())\<close> of \<^verbatim>\<open>playout\<close> on the copy \<^verbatim>\<open>simNode\<close>. Every
  pass fills an empty cell, which is why it terminates.
\<close>

function playout_loop :: "'f Platform \<Rightarrow> nat \<Rightarrow> MonteCarloNode \<Rightarrow> error + (int \<times> nat)" where
  "playout_loop P k simNode =
     (case isTerminal simNode of
        (True, simNode) \<Rightarrow> Inr (fst (getWinState simNode), k)
      | (False, simNode) \<Rightarrow>
          (case playoutPolicy P k simNode of
             Inl e \<Rightarrow> Inl e
           | Inr move \<Rightarrow>
               (case applyMove simNode move of
                  Inl e \<Rightarrow> Inl e
                | Inr (False, simNode) \<Rightarrow> Inl ThrownException
                | Inr (True, simNode) \<Rightarrow> playout_loop P (Suc k) simNode)))"
  by pat_completeness auto
termination
proof (relation "measure (\<lambda>(P, k, simNode). emptyCells (m_board (nodeData simNode)))", goal_cases)
  case 1
  show ?case by simp
next
  case (2 P k simNode x y b ba xa ya)
  from 2(1) have "y = snd (isTerminal simNode)" by (simp add: prod_eq_iff)
  then have same: "m_board (nodeData y) = m_board (nodeData simNode)" by simp
  from 2(4,5,6) have "applyMove y b = Inr (True, ya)" by auto
  from applyMove_True [OF this]
  have ok: "fst (place (m_board (nodeData y)) b)"
    and after: "m_board (nodeData ya) = snd (place (m_board (nodeData y)) b)" by simp_all
  from emptyCells_place [OF ok playoutPolicy_empty_cell [OF 2(3)]] after same
  show ?case by simp
qed

text \<open>
  \<^verbatim>\<open>playout\<close>: the result, the node (whose memo \<^verbatim>\<open>isTerminal()\<close> may have set) and the
  number of calls of \<^verbatim>\<open>rand()\<close> so far.
\<close>

definition playout ::
  "'f Platform \<Rightarrow> nat \<Rightarrow> MonteCarloNode \<Rightarrow> error + (int \<times> MonteCarloNode \<times> nat)" where
  "playout P k node =
     (case isTerminal node of
        (True, node) \<Rightarrow> (let (res, node) = getWinState node in Inr (res, node, k))
      | (False, node) \<Rightarrow>
          (case playout_loop P k node of
             Inl e \<Rightarrow> Inl e
           | Inr (res, k) \<Rightarrow> Inr (res, node, k)))"

text \<open>Reading and writing the node a pointer (a path from the root) refers to.\<close>

fun nodeAt :: "MonteCarloNode \<Rightarrow> Move list \<Rightarrow> MonteCarloNode option" where
  "nodeAt node [] = Some node"
| "nodeAt node (move # path) =
     (case getChildForMove node move of
        None \<Rightarrow> None
      | Some child \<Rightarrow> nodeAt child path)"

fun storeAt :: "MonteCarloNode \<Rightarrow> Move list \<Rightarrow> MonteCarloNode \<Rightarrow> MonteCarloNode" where
  "storeAt node [] new = new"
| "storeAt node (move # path) new =
     (case getChildForMove node move of
        None \<Rightarrow> node
      | Some child \<Rightarrow>
          MonteCarloNode (nodeData node) (storeChild move (storeAt child path new) (children node)))"

text \<open>
  \<^verbatim>\<open>backpropagate\<close> walks from the leaf through \<^verbatim>\<open>m_parent\<close> up to the root and updates
  every node on the way. The nodes it meets are those on the path from the root to the
  leaf, and the updates of different nodes do not depend on each other.
\<close>

definition updateStatistics :: "Tile \<Rightarrow> int \<Rightarrow> NodeData \<Rightarrow> NodeData" where
  "updateStatistics m_tile playoutResults d =
     d\<lparr>wins := wins d + playoutResults * tileValue m_tile, visits := visits d + 1\<rparr>"

fun backpropagate :: "Tile \<Rightarrow> int \<Rightarrow> MonteCarloNode \<Rightarrow> Move list \<Rightarrow> error + MonteCarloNode" where
  "backpropagate m_tile playoutResults node [] =
     Inr (setData node (updateStatistics m_tile playoutResults (nodeData node)))"
| "backpropagate m_tile playoutResults node (move # path) =
     (case getChildForMove node move of
        None \<Rightarrow> Inl NullPointer
      | Some child \<Rightarrow>
          (case backpropagate m_tile playoutResults child path of
             Inl e \<Rightarrow> Inl e
           | Inr child' \<Rightarrow>
               Inr (MonteCarloNode (updateStatistics m_tile playoutResults (nodeData node))
                      (storeChild move child' (children node)))))"

text \<open>One pass of the loop of \<^verbatim>\<open>monteCarloTreeSearch\<close>, on the tree and the count of \<^verbatim>\<open>rand()\<close> calls.\<close>

definition simulation ::
  "'f Platform \<Rightarrow> int \<Rightarrow> Tile \<Rightarrow> MonteCarloNode \<times> nat \<Rightarrow> error + (MonteCarloNode \<times> nat)" where
  "simulation P m_c m_tile s =
     (case traverse P m_c (fst s) of
        Inl e \<Rightarrow> Inl e
      | Inr (None, root) \<Rightarrow> Inl NullPointer
      | Inr (Some leaf, root) \<Rightarrow>
          (case nodeAt root leaf of
             None \<Rightarrow> Inl NullPointer
           | Some node \<Rightarrow>
               (case playout P (snd s) node of
                  Inl e \<Rightarrow> Inl e
                | Inr (results, node, k) \<Rightarrow>
                    (case backpropagate m_tile results (storeAt root leaf node) leaf of
                       Inl e \<Rightarrow> Inl e
                     | Inr root \<Rightarrow> Inr (root, k)))))"

fun simulations ::
  "'f Platform \<Rightarrow> int \<Rightarrow> Tile \<Rightarrow> nat \<Rightarrow> MonteCarloNode \<times> nat \<Rightarrow> error + (MonteCarloNode \<times> nat)" where
  "simulations P m_c m_tile 0 s = Inr s"
| "simulations P m_c m_tile (Suc n) s =
     (case simulation P m_c m_tile s of
        Inl e \<Rightarrow> Inl e
      | Inr s' \<Rightarrow> simulations P m_c m_tile n s')"

text \<open>The final loop over \<^verbatim>\<open>allMoves\<close> with the current \<^verbatim>\<open>res\<close> and \<^verbatim>\<open>maxVisits\<close>.\<close>

fun mostVisited_loop :: "MonteCarloNode \<Rightarrow> Move list \<Rightarrow> Move \<Rightarrow> int \<Rightarrow> error + Move" where
  "mostVisited_loop root [] res maxVisits = Inr res"
| "mostVisited_loop root (move # moves) res maxVisits =
     (case getChildForMove root move of
        None \<Rightarrow> Inl BadOptionalAccess
      | Some child \<Rightarrow>
          if visits (nodeData child) > maxVisits
          then mostVisited_loop root moves move (visits (nodeData child))
          else mostVisited_loop root moves res maxVisits)"

definition monteCarloTreeSearch ::
  "'f Platform \<Rightarrow> int \<Rightarrow> int \<Rightarrow> Tile \<Rightarrow> Board \<Rightarrow> error + Move" where
  "monteCarloTreeSearch P m_nSimulation m_c m_tile b =
     (case newNode m_tile b of
        Inl e \<Rightarrow> Inl e
      | Inr root \<Rightarrow>
          (case simulations P m_c m_tile (nat m_nSimulation) (root, 0) of
             Inl e \<Rightarrow> Inl e
           | Inr (root, k) \<Rightarrow> mostVisited_loop root (getExpandedMoves P root) defaultMove 0))"

subsection \<open>A small search\<close>

text \<open>
  A 2 x 2 board with its bottom row filled, and a platform: the children of a node are
  iterated in the given order, the UCT value is an integer, and \<^verbatim>\<open>rand()\<close> returns
  3, 10, 17, ...
\<close>

definition bottomRow22 :: Board where
  "bottomRow22 = placeAll (emptyBoard 2 2)
     [\<lparr>pos = \<lparr>vx = 0, vy = 1\<rparr>, tile = Positive\<rparr>, \<lparr>pos = \<lparr>vx = 1, vy = 1\<rparr>, tile = Negative\<rparr>]"

definition testPlatform :: "(Move list \<Rightarrow> Move list) \<Rightarrow> int Platform" where
  "testPlatform order = \<lparr>iterationOrder = order, uctValue = (\<lambda>cq cn rn c. cq - cn),
     floatGreater = (\<lambda>a b. a > b), lowestFloat = - 1000, rand = (\<lambda>k. 7 * k + 3)\<rparr>"

subsection \<open>Visit counts of the children of a node\<close>

text \<open>The sum of the visit counts of the children of a node.\<close>

definition childVisits :: "MonteCarloNode \<Rightarrow> int" where
  "childVisits node = sum_list (map (\<lambda>mc. visits (nodeData (snd mc))) (children node))"

text \<open>The visit count of the child that \<^verbatim>\<open>getChildForMove\<close> finds for a move.\<close>

definition visitsAt :: "MonteCarloNode \<Rightarrow> Move \<Rightarrow> int" where
  "visitsAt root move =
     (case getChildForMove root move of
        None \<Rightarrow> 0
      | Some child \<Rightarrow> visits (nodeData child))"

text \<open>The list of entries is a map: no key occurs twice.\<close>

definition uniqueKeys :: "MonteCarloNode \<Rightarrow> bool" where
  "uniqueKeys n \<longleftrightarrow> distinct (map fst (children n))"

section \<open>Bookkeeping of the search tree\<close>

text \<open>
  No step of a simulation but \<^verbatim>\<open>backpropagate\<close> changes a visit count; a new child
  starts with none; \<^verbatim>\<open>backpropagate\<close> adds one visit to every node on the path from
  the root to the leaf, hence to exactly one child of the root.
\<close>

lemma sum_storeChild:
  "sum_list (map (\<lambda>mc. visits (nodeData (snd mc))) (storeChild k c cs)) =
     sum_list (map (\<lambda>mc. visits (nodeData (snd mc))) cs) + visits (nodeData c)
       - (case map_of cs k of None \<Rightarrow> 0 | Some c0 \<Rightarrow> visits (nodeData c0))"
  by (induction cs) auto

lemma map_of_storeChild: "map_of (storeChild k c cs) k = Some c"
  by (induction cs) auto

lemma childVisits_store_same:
  assumes "getChildForMove n k = Some c0" and "visits (nodeData c) = visits (nodeData c0)"
  shows "childVisits (MonteCarloNode d (storeChild k c (children n))) = childVisits n"
  using assms by (simp add: childVisits_def sum_storeChild getChildForMove_def)

lemma visits_isTerminal [simp]: "visits (nodeData (snd (isTerminal n))) = visits (nodeData n)"
  by (simp add: isTerminal_def Let_def split: option.splits)

lemma visits_isFullyExpanded [simp]:
  "visits (nodeData (snd (isFullyExpanded n))) = visits (nodeData n)"
  by (simp add: isFullyExpanded_def Let_def)

lemma childVisits_cong: "children a = children b \<Longrightarrow> childVisits a = childVisits b"
  by (simp add: childVisits_def)

lemma newNode_visits: "newNode t b = Inr n \<Longrightarrow> visits (nodeData n) = 0 \<and> children n = []"
  by (auto simp: newNode_def split: sum.splits)

lemma applyMove_visits:
  "applyMove n move = Inr (ok, n') \<Longrightarrow> visits (nodeData n') = visits (nodeData n) \<and> children n' = children n"
  by (auto simp: applyMove_def Let_def case_prod_beta split: sum.splits if_splits)

lemma createChild_visits:
  assumes "createChild n move = Inr n'" and "getChildForMove n move = None"
  shows "visits (nodeData n') = visits (nodeData n) \<and> childVisits n' = childVisits n"
proof -
  from assms(1) obtain c0 ok c where c0: "newNode (m_turn (nodeData n)) (m_board (nodeData n)) = Inr c0"
    and c: "applyMove c0 move = Inr (ok, c)"
    and n': "n' = MonteCarloNode (nodeData n) (storeChild move c (children n))"
    by (auto simp: createChild_def split: sum.splits)
  from newNode_visits [OF c0] applyMove_visits [OF c] have "visits (nodeData c) = 0" by simp
  with assms(2) show ?thesis
    by (simp add: n' childVisits_def sum_storeChild getChildForMove_def)
qed

lemma expand_visits:
  assumes "expand n = Inr (l, n')"
  shows "visits (nodeData n') = visits (nodeData n) \<and> childVisits n' = childVisits n"
proof -
  from assms obtain positions where "generateValidPositions (m_board (nodeData n)) = Inr positions"
    by (auto simp: expand_def split: sum.splits)
  show ?thesis
  proof (cases "find (\<lambda>p. getChildForMove n \<lparr>pos = p, tile = m_turn (nodeData n)\<rparr> = None) positions")
    case None
    with assms \<open>generateValidPositions (m_board (nodeData n)) = Inr positions\<close>
    show ?thesis by (simp add: expand_def)
  next
    case (Some p)
    then have absent: "getChildForMove n \<lparr>pos = p, tile = m_turn (nodeData n)\<rparr> = None"
      by (auto simp: find_Some_iff)
    from assms Some \<open>generateValidPositions (m_board (nodeData n)) = Inr positions\<close>
    have "createChild n \<lparr>pos = p, tile = m_turn (nodeData n)\<rparr> = Inr n'"
      by (auto simp: expand_def split: sum.splits)
    from createChild_visits [OF this absent] show ?thesis .
  qed
qed

lemma traverse_rec_visits:
  "traverse_rec P m_c n = Inr (l, n') \<Longrightarrow>
     visits (nodeData n') = visits (nodeData n) \<and> childVisits n' = childVisits n"
proof (induction P m_c n arbitrary: l n' rule: traverse_rec.induct)
  case (1 P m_c node)
  obtain t node1 where it: "isTerminal node = (t, node1)" by (cases "isTerminal node")
  then have n1: "node1 = snd (isTerminal node)" by simp
  show ?case
  proof (cases t)
    case True
    with "1.prems" it have "n' = node1" by (simp add: traverse_rec.simps [of P m_c node])
    then show ?thesis by (simp add: n1 childVisits_cong [of "snd (isTerminal node)" node])
  next
    case False
    obtain f node2 where ife: "isFullyExpanded node1 = (f, node2)" by (cases "isFullyExpanded node1")
    then have n2: "node2 = snd (isFullyExpanded node1)" by simp
    have v2: "visits (nodeData node2) = visits (nodeData node)" by (simp add: n1 n2)
    have c2: "childVisits node2 = childVisits node"
      by (rule childVisits_cong) (simp add: n1 n2)
    show ?thesis
    proof (cases f)
      case False
      with "1.prems" it ife \<open>\<not> t\<close> obtain l' where "expand node2 = Inr (l', n')"
        by (auto simp: traverse_rec.simps [of P m_c node] split: sum.splits option.splits)
      from expand_visits [OF this] v2 c2 show ?thesis by simp
    next
      case True
      with "1.prems" it ife \<open>\<not> t\<close> obtain move child leaf child'
        where b: "bestUCT P m_c node2 = Inr (Some move)"
          and ch: "getChildForMove node2 move = Some child"
          and rec: "traverse_rec P m_c child = Inr (leaf, child')"
          and n': "n' = MonteCarloNode (nodeData node2) (storeChild move child' (children node2))"
        by (auto simp: traverse_rec.simps [of P m_c node] split: sum.splits option.splits)
      from "1.IH" [OF it [symmetric] _ ife [symmetric] _ b _ ch rec] \<open>\<not> t\<close> True
      have "visits (nodeData child') = visits (nodeData child)" by simp
      from childVisits_store_same [OF ch this] v2 c2 show ?thesis by (simp add: n')
    qed
  qed
qed

lemma traverse_visits:
  assumes "traverse P m_c n = Inr (Some leaf, n')"
  shows "leaf \<noteq> [] \<and> childVisits n' = childVisits n"
proof -
  from assms obtain l where rec: "traverse_rec P m_c n = Inr (l, n')"
    by (auto simp: traverse_def split: sum.splits option.splits list.splits)
  from assms have "leaf \<noteq> []"
    by (auto simp: traverse_def split: sum.splits option.splits list.splits)
  with traverse_rec_visits [OF rec] show ?thesis by simp
qed

lemma getWinState_visits [simp]: "visits (nodeData (snd (getWinState n))) = visits (nodeData n)"
  by (simp add: getWinState_def case_prod_beta)

lemma playout_visits:
  assumes "playout P k n = Inr (r, n', k')"
  shows "visits (nodeData n') = visits (nodeData n)"
proof -
  obtain t n1 where it: "isTerminal n = (t, n1)" by (cases "isTerminal n")
  then have n1: "visits (nodeData n1) = visits (nodeData n)"
    using visits_isTerminal [of n] by simp
  show ?thesis
  proof (cases t)
    case True
    with assms it have "n' = snd (getWinState n1)"
      by (simp add: playout_def case_prod_beta)
    with n1 show ?thesis by simp
  next
    case False
    with assms it have "n' = n1"
      by (auto simp: playout_def split: sum.splits)
    with n1 show ?thesis by simp
  qed
qed

lemma storeAt_visits:
  assumes "nodeAt c path = Some n" and "visits (nodeData n') = visits (nodeData n)"
  shows "visits (nodeData (storeAt c path n')) = visits (nodeData c)"
  using assms by (cases path) (auto split: option.splits)

lemma backpropagate_visits:
  "backpropagate t r c path = Inr c' \<Longrightarrow> visits (nodeData c') = visits (nodeData c) + 1"
  by (cases path) (auto simp: updateStatistics_def split: option.splits sum.splits)

lemma simulation_childVisits:
  assumes "simulation P m_c m_tile (root, k) = Inr (root', k')"
  shows "childVisits root' = childVisits root + 1"
proof -
  from assms obtain leaf root1 n r n1 where tr: "traverse P m_c root = Inr (Some leaf, root1)"
    and at: "nodeAt root1 leaf = Some n"
    and po: "playout P k n = Inr (r, n1, k')"
    and bp: "backpropagate m_tile r (storeAt root1 leaf n1) leaf = Inr root'"
    by (auto simp: simulation_def split: sum.splits option.splits)
  from traverse_visits [OF tr] obtain move path where leaf: "leaf = move # path"
    and cv1: "childVisits root1 = childVisits root"
    by (cases leaf) auto
  from at leaf obtain c1 where c1: "getChildForMove root1 move = Some c1"
    and at1: "nodeAt c1 path = Some n"
    by (auto split: option.splits)
  let ?c2 = "storeAt c1 path n1"
  let ?root2 = "MonteCarloNode (nodeData root1) (storeChild move ?c2 (children root1))"
  have root2: "storeAt root1 (move # path) n1 = ?root2" by (simp add: c1)
  have v2: "visits (nodeData ?c2) = visits (nodeData c1)"
    by (rule storeAt_visits [OF at1 playout_visits [OF po]])
  have cv2: "childVisits ?root2 = childVisits root1"
    by (rule childVisits_store_same [OF c1 v2])
  have g2: "getChildForMove ?root2 move = Some ?c2"
    using c1 by (simp add: getChildForMove_def map_of_storeChild)
  from bp [unfolded leaf root2]
  obtain c3 where b3: "backpropagate m_tile r ?c2 path = Inr c3"
    and root': "root' = MonteCarloNode (updateStatistics m_tile r (nodeData ?root2))
                  (storeChild move c3 (children ?root2))"
    by (auto simp: g2 split: sum.splits)
  from backpropagate_visits [OF b3] have v3: "visits (nodeData c3) = visits (nodeData ?c2) + 1" .
  have "childVisits root' = childVisits ?root2 + 1"
    using g2 v3 by (simp add: root' childVisits_def sum_storeChild getChildForMove_def)
  with cv1 cv2 show ?thesis by simp
qed

lemma simulations_childVisits:
  "simulations P m_c m_tile n (root, k) = Inr (root', k')
     \<Longrightarrow> childVisits root' = childVisits root + int n"
proof (induction n arbitrary: root k)
  case 0
  then show ?case by simp
next
  case (Suc n)
  from Suc.prems obtain root1 k1 where s1: "simulation P m_c m_tile (root, k) = Inr (root1, k1)"
    and rest: "simulations P m_c m_tile n (root1, k1) = Inr (root', k')"
    by (auto split: sum.splits)
  from simulation_childVisits [OF s1] Suc.IH [OF rest] show ?case by simp
qed

text \<open>The keys of the children stay distinct.\<close>

lemma keys_storeChild_present:
  "k \<in> fst ` set cs \<Longrightarrow> map fst (storeChild k c cs) = map fst cs"
  by (induction cs) (fastforce simp: image_iff)+

lemma keys_storeChild_absent:
  "k \<notin> fst ` set cs \<Longrightarrow> map fst (storeChild k c cs) = map fst cs @ [k]"
  by (induction cs) auto

lemma uniqueKeys_cong: "children a = children b \<Longrightarrow> uniqueKeys a = uniqueKeys b"
  by (simp add: uniqueKeys_def)

lemma uniqueKeys_store:
  "uniqueKeys n \<Longrightarrow> uniqueKeys (MonteCarloNode d (storeChild k c (children n)))"
  by (cases "k \<in> fst ` set (children n)")
     (simp_all add: uniqueKeys_def keys_storeChild_present keys_storeChild_absent)

lemma storeAt_uniqueKeys:
  "uniqueKeys n \<Longrightarrow> path \<noteq> [] \<Longrightarrow> uniqueKeys (storeAt n path new)"
  by (cases path) (auto simp: uniqueKeys_store split: option.splits)

lemma uniqueKeys_setData [simp]: "uniqueKeys (setData n d) = uniqueKeys n"
  by (simp add: uniqueKeys_def)

lemma backpropagate_uniqueKeys:
  "backpropagate t r n path = Inr n' \<Longrightarrow> uniqueKeys n \<Longrightarrow> uniqueKeys n'"
  by (cases path) (auto simp: uniqueKeys_store split: option.splits sum.splits)

lemma createChild_uniqueKeys:
  "createChild n move = Inr n' \<Longrightarrow> uniqueKeys n \<Longrightarrow> uniqueKeys n'"
  by (auto simp: createChild_def uniqueKeys_store split: sum.splits)

lemma expand_uniqueKeys:
  "expand n = Inr (l, n') \<Longrightarrow> uniqueKeys n \<Longrightarrow> uniqueKeys n'"
  by (auto simp: expand_def createChild_uniqueKeys split: sum.splits option.splits)

lemma traverse_rec_uniqueKeys:
  assumes "traverse_rec P m_c n = Inr (l, n')" and "uniqueKeys n"
  shows "uniqueKeys n'"
proof -
  obtain t node1 where it: "isTerminal n = (t, node1)" by (cases "isTerminal n")
  then have n1: "node1 = snd (isTerminal n)" by simp
  obtain f node2 where ife: "isFullyExpanded node1 = (f, node2)" by (cases "isFullyExpanded node1")
  then have n2: "node2 = snd (isFullyExpanded node1)" by simp
  have u1: "uniqueKeys node1" using assms(2) by (simp add: n1 uniqueKeys_def)
  have u2: "uniqueKeys node2" using assms(2) by (simp add: n1 n2 uniqueKeys_def)
  show ?thesis
  proof (cases t)
    case True
    with assms(1) it have "n' = node1" by (simp add: traverse_rec.simps [of P m_c n])
    with u1 show ?thesis by simp
  next
    case False
    show ?thesis
    proof (cases f)
      case False
      with assms(1) it ife \<open>\<not> t\<close> obtain l' where "expand node2 = Inr (l', n')"
        by (auto simp: traverse_rec.simps [of P m_c n] split: sum.splits option.splits)
      from expand_uniqueKeys [OF this u2] show ?thesis .
    next
      case True
      with assms(1) it ife \<open>\<not> t\<close> obtain move child'
        where "n' = MonteCarloNode (nodeData node2) (storeChild move child' (children node2))"
        by (auto simp: traverse_rec.simps [of P m_c n] split: sum.splits option.splits)
      with uniqueKeys_store [OF u2] show ?thesis by simp
    qed
  qed
qed

lemma simulation_uniqueKeys:
  assumes "simulation P m_c m_tile (root, k) = Inr (root', k')" and "uniqueKeys root"
  shows "uniqueKeys root'"
proof -
  from assms(1) obtain leaf root1 n r n1 where tr: "traverse P m_c root = Inr (Some leaf, root1)"
    and bp: "backpropagate m_tile r (storeAt root1 leaf n1) leaf = Inr root'"
    by (auto simp: simulation_def split: sum.splits option.splits)
  from tr obtain l where "traverse_rec P m_c root = Inr (l, root1)"
    by (auto simp: traverse_def split: sum.splits option.splits list.splits)
  from traverse_rec_uniqueKeys [OF this assms(2)] have u1: "uniqueKeys root1" .
  from traverse_visits [OF tr] have "leaf \<noteq> []" by simp
  from backpropagate_uniqueKeys [OF bp storeAt_uniqueKeys [OF u1 this]] show ?thesis .
qed

lemma simulations_uniqueKeys:
  "simulations P m_c m_tile n (root, k) = Inr (root', k') \<Longrightarrow> uniqueKeys root
     \<Longrightarrow> uniqueKeys root'"
proof (induction n arbitrary: root k)
  case 0
  then show ?case by simp
next
  case (Suc n)
  from Suc.prems(1) obtain root1 k1 where s1: "simulation P m_c m_tile (root, k) = Inr (root1, k1)"
    and rest: "simulations P m_c m_tile n (root1, k1) = Inr (root', k')"
    by (auto split: sum.splits)
  from Suc.IH [OF rest simulation_uniqueKeys [OF s1 Suc.prems(2)]] show ?case .
qed

lemma visited_child:
  assumes "uniqueKeys n" and "0 < childVisits n"
  shows "\<exists>m \<in> fst ` set (children n). 0 < visitsAt n m"
proof -
  have "\<exists>mc \<in> set (children n). 0 < visits (nodeData (snd mc))"
  proof (rule ccontr)
    assume "\<not> ?thesis"
    then have "\<forall>x \<in> set (map (\<lambda>mc. visits (nodeData (snd mc))) (children n)). x \<le> 0"
      by (auto simp: not_less)
    then have "sum_list (map (\<lambda>mc. visits (nodeData (snd mc))) (children n)) \<le> 0"
      by (intro sum_list_nonpos) auto
    with assms(2) show False by (simp add: childVisits_def)
  qed
  then obtain m c where mc: "(m, c) \<in> set (children n)" and v: "0 < visits (nodeData c)"
    by auto
  from assms(1) mc have "map_of (children n) m = Some c"
    by (simp add: uniqueKeys_def)
  with v have "0 < visitsAt n m" by (simp add: visitsAt_def getChildForMove_def)
  with mc show ?thesis by force
qed

text \<open>The final loop returns the first move of its list with the greatest visit count.\<close>

lemma if_holdsI: "c \<Longrightarrow> A \<Longrightarrow> (if c then A else B)"
  by simp

lemma if_failsI: "\<not> c \<Longrightarrow> B \<Longrightarrow> (if c then A else B)"
  by simp

lemma if_holdsD: "(if c then A else B) \<Longrightarrow> c \<Longrightarrow> A"
  by simp

lemma if_failsD: "(if c then A else B) \<Longrightarrow> \<not> c \<Longrightarrow> B"
  by simp

lemma firstMaxI:
  assumes "moves = before @ mv # after" and "visitsAt root mv > maxVisits"
    and "\<forall>m \<in> set before. visitsAt root m < visitsAt root mv"
    and "\<forall>m \<in> set after. visitsAt root m \<le> visitsAt root mv"
  shows "\<exists>before after. moves = before @ mv # after \<and> visitsAt root mv > maxVisits \<and>
           (\<forall>m \<in> set before. visitsAt root m < visitsAt root mv) \<and>
           (\<forall>m \<in> set after. visitsAt root m \<le> visitsAt root mv)"
  using assms by (intro exI [of _ before] exI [of _ after]) simp

lemma mostVisited_loop_result:
  assumes "mostVisited_loop root moves res maxVisits = Inr mv"
  shows "if \<exists>m \<in> set moves. visitsAt root m > maxVisits
         then \<exists>before after. moves = before @ mv # after \<and> visitsAt root mv > maxVisits \<and>
                (\<forall>m \<in> set before. visitsAt root m < visitsAt root mv) \<and>
                (\<forall>m \<in> set after. visitsAt root m \<le> visitsAt root mv)
         else mv = res"
  using assms
proof (induction moves arbitrary: res maxVisits)
  case Nil
  then show ?case by simp
next
  case (Cons move moves)
  from Cons.prems obtain child where ch: "getChildForMove root move = Some child"
    by (auto split: option.splits)
  then have v: "visitsAt root move = visits (nodeData child)" by (simp add: visitsAt_def)
  show ?case
  proof (cases "visits (nodeData child) > maxVisits")
    case True
    then have ex: "\<exists>m \<in> set (move # moves). visitsAt root m > maxVisits"
      using v by simp
    from True Cons.prems ch
    have rec: "mostVisited_loop root moves move (visits (nodeData child)) = Inr mv"
      by simp
    show ?thesis
    proof (cases "\<exists>m \<in> set moves. visitsAt root m > visits (nodeData child)")
      case False
      from if_failsD [OF Cons.IH [OF rec] False] have mv: "mv = move" .
      have 1: "move # moves = [] @ mv # moves" by (simp add: mv)
      have 2: "visitsAt root mv > maxVisits" using True v mv by simp
      have 3: "\<forall>m \<in> set []. visitsAt root m < visitsAt root mv" by simp
      have 4: "\<forall>m \<in> set moves. visitsAt root m \<le> visitsAt root mv"
        using False v mv by (simp add: not_less)
      show ?thesis by (rule if_holdsI [OF ex firstMaxI [OF 1 2 3 4]])
    next
      case later: True
      from if_holdsD [OF Cons.IH [OF rec] later]
      obtain before after where m: "moves = before @ mv # after"
        and gt: "visitsAt root mv > visits (nodeData child)"
        and b: "\<forall>m \<in> set before. visitsAt root m < visitsAt root mv"
        and a: "\<forall>m \<in> set after. visitsAt root m \<le> visitsAt root mv"
        by (elim exE conjE)
      have 1: "move # moves = (move # before) @ mv # after" by (simp add: m)
      have 2: "visitsAt root mv > maxVisits" using gt True by simp
      have 3: "\<forall>m \<in> set (move # before). visitsAt root m < visitsAt root mv"
        using b gt v by simp
      show ?thesis by (rule if_holdsI [OF ex firstMaxI [OF 1 2 3 a]])
    qed
  next
    case False
    with Cons.prems ch have rec: "mostVisited_loop root moves res maxVisits = Inr mv" by simp
    show ?thesis
    proof (cases "\<exists>m \<in> set moves. visitsAt root m > maxVisits")
      case no: False
      from if_failsD [OF Cons.IH [OF rec] no] have 1: "mv = res" .
      from no False v have 2: "\<not> (\<exists>m \<in> set (move # moves). visitsAt root m > maxVisits)"
        by simp
      show ?thesis by (rule if_failsI [OF 2 1])
    next
      case later: True
      then have ex: "\<exists>m \<in> set (move # moves). visitsAt root m > maxVisits" by simp
      from if_holdsD [OF Cons.IH [OF rec] later]
      obtain before after where m: "moves = before @ mv # after"
        and gt: "visitsAt root mv > maxVisits"
        and b: "\<forall>m \<in> set before. visitsAt root m < visitsAt root mv"
        and a: "\<forall>m \<in> set after. visitsAt root m \<le> visitsAt root mv"
        by (elim exE conjE)
      have 1: "move # moves = (move # before) @ mv # after" by (simp add: m)
      have 3: "\<forall>m \<in> set (move # before). visitsAt root m < visitsAt root mv"
        using b gt v False by simp
      show ?thesis by (rule if_holdsI [OF ex firstMaxI [OF 1 gt 3 a]])
    qed
  qed
qed

section \<open>Placement followed by removal\<close>

text \<open>
  Claim C1, as the code has it. \<^verbatim>\<open>Board::operator<<\<close> does not look at the target
  cell, so it also succeeds on a cell that already holds a tile of the same colour;
  the removal then clears a bit that was set before. Placing and removing a move
  gives back the prior board, bit for bit, exactly when the bit of the move's colour
  at the position was clear before (in particular when the cell was empty).
\<close>

theorem place_then_remove_restores:
  assumes "board_rep b" and "fst (place b m)"
  shows "fst (remove (snd (place b m)) m) \<and>
         (snd (remove (snd (place b m)) m) = b \<longleftrightarrow> \<not> hasPiece b (tile m) (pos m))"
proof -
  let ?n = "n_elems b" and ?k = "index b (pos m)"
  from assms(2) have v: "isValidPosition b (pos m)"
    by (auto simp: place_def split: if_splits)
  from assms(2) have t: "tile m = Positive \<or> tile m = Negative"
    by (auto simp: place_def Let_def split: if_splits Tile.splits)
  have k: "?k < ?n" by (rule index_less_n_elems [OF v])
  have clear: "(v OR bitset_shl ?n 1 ?k) AND bitset_not ?n (bitset_shl ?n 1 ?k) = v
      \<longleftrightarrow> \<not> bit v ?k" if "take_bit ?n v = v" for v
  proof
    assume "(v OR bitset_shl ?n 1 ?k) AND bitset_not ?n (bitset_shl ?n 1 ?k) = v"
    then have "bit v ?k = bit ((v OR bitset_shl ?n 1 ?k) AND bitset_not ?n (bitset_shl ?n 1 ?k)) ?k"
      by simp
    then show "\<not> bit v ?k" by (simp add: bit_simps bit_mask_shl bit_remove_mask)
  next
    assume nb: "\<not> bit v ?k"
    have "bit v j \<Longrightarrow> j < ?n" for j
      using that by (metis bit_take_bit_iff)
    with nb show "(v OR bitset_shl ?n 1 ?k) AND bitset_not ?n (bitset_shl ?n 1 ?k) = v"
      by (intro bit_eqI) (auto simp: bit_simps bit_mask_shl bit_remove_mask)
  qed
  from t show ?thesis
  proof
    assume p: "tile m = Positive"
    from assms(2) v p have eq: "snd (place b m) =
        b\<lparr>m_positivePieces := m_positivePieces b OR bitset_shl ?n 1 ?k\<rparr>"
      by (auto simp: place_def Let_def split: if_splits)
    have rm: "remove (snd (place b m)) m =
        (True, b\<lparr>m_positivePieces := (m_positivePieces b OR bitset_shl ?n 1 ?k)
                    AND bitset_not ?n (bitset_shl ?n 1 ?k)\<rparr>)"
      using v p by (simp add: eq remove_def Let_def isValidPosition_def n_elems_def index_def)
    have "b\<lparr>m_positivePieces := w\<rparr> = b \<longleftrightarrow> w = m_positivePieces b" for w
      by (cases b) auto
    with clear [of "m_positivePieces b"] assms(1) show ?thesis
      by (simp add: rm hasPiece_def p testPiece_bit board_rep_def)
  next
    assume p: "tile m = Negative"
    from assms(2) v p have eq: "snd (place b m) =
        b\<lparr>m_negativePieces := m_negativePieces b OR bitset_shl ?n 1 ?k\<rparr>"
      by (auto simp: place_def Let_def split: if_splits)
    have rm: "remove (snd (place b m)) m =
        (True, b\<lparr>m_negativePieces := (m_negativePieces b OR bitset_shl ?n 1 ?k)
                    AND bitset_not ?n (bitset_shl ?n 1 ?k)\<rparr>)"
      using v p by (simp add: eq remove_def Let_def isValidPosition_def n_elems_def index_def)
    have "b\<lparr>m_negativePieces := w\<rparr> = b \<longleftrightarrow> w = m_negativePieces b" for w
      by (cases b) auto
    with clear [of "m_negativePieces b"] assms(1) show ?thesis
      by (simp add: rm hasPiece_def p testPiece_bit board_rep_def)
  qed
qed

text \<open>A Positive tile dropped on the empty 6 x 7 board and taken off again.\<close>

theorem place_then_remove_restores_witness:
  "board_rep (emptyBoard 6 7) \<and>
   fst (place (emptyBoard 6 7) \<lparr>pos = \<lparr>vx = 0, vy = 5\<rparr>, tile = Positive\<rparr>) \<and>
   \<not> hasPiece (emptyBoard 6 7) Positive \<lparr>vx = 0, vy = 5\<rparr> \<and>
   snd (remove (snd (place (emptyBoard 6 7) \<lparr>pos = \<lparr>vx = 0, vy = 5\<rparr>, tile = Positive\<rparr>))
          \<lparr>pos = \<lparr>vx = 0, vy = 5\<rparr>, tile = Positive\<rparr>) = emptyBoard 6 7"
proof -
  let ?b = "emptyBoard 6 7"
  let ?m = "\<lparr>pos = \<lparr>vx = 0, vy = 5\<rparr>, tile = Positive\<rparr>"
  have rep: "board_rep ?b" by (simp add: board_rep_def emptyBoard_def)
  have ok: "fst (place ?b ?m)" by (simp add: board_eval)
  have free: "\<not> hasPiece ?b (tile ?m) (pos ?m)" by (simp add: board_eval)
  from place_then_remove_restores [OF rep ok] free
  have "snd (remove (snd (place ?b ?m)) ?m) = ?b" by simp
  with rep ok free show ?thesis by simp
qed

text \<open>
  The claim as stated fails when the same move is placed twice: with a Positive tile
  already at column 0, row 5 of the 6 x 7 board, placing it again succeeds and leaves
  the board as it is, and the removal then empties the cell.
\<close>

theorem place_then_remove_counterexample:
  "fst (place (snd (place (emptyBoard 6 7) \<lparr>pos = \<lparr>vx = 0, vy = 5\<rparr>, tile = Positive\<rparr>))
         \<lparr>pos = \<lparr>vx = 0, vy = 5\<rparr>, tile = Positive\<rparr>) \<and>
   snd (remove
          (snd (place (snd (place (emptyBoard 6 7) \<lparr>pos = \<lparr>vx = 0, vy = 5\<rparr>, tile = Positive\<rparr>))
                  \<lparr>pos = \<lparr>vx = 0, vy = 5\<rparr>, tile = Positive\<rparr>))
          \<lparr>pos = \<lparr>vx = 0, vy = 5\<rparr>, tile = Positive\<rparr>)
     \<noteq> snd (place (emptyBoard 6 7) \<lparr>pos = \<lparr>vx = 0, vy = 5\<rparr>, tile = Positive\<rparr>)"
  by (simp add: board_eval)

section \<open>The positions the move generator returns\<close>

text \<open>
  What a call of \<^verbatim>\<open>generateValidPositions\<close> returns when it completes, on a board whose
  occupied cells are all supported from below: exactly one position for each column
  whose top cell is empty, in ascending order of the columns; each is the lowest empty
  cell of its column (it is empty and every cell below it is occupied), and there are
  at most \<^verbatim>\<open>cols\<close> of them. The function takes the board by \<^verbatim>\<open>const\<close> reference and is a
  pure function of it here.
\<close>

lemma generateValidPositions_correct:
  assumes "supported b" and "generateValidPositions b = Inr res"
  shows "map vx res = filter (\<lambda>x. tileAt b \<lparr>vx = x, vy = 0\<rparr> = Some Empty)
                        [0 .. cols (m_shape b) - 1] \<and>
         (\<forall>p \<in> set res. tileAt b p = Some Empty \<and>
            (\<forall>r. vy p < r \<and> r < rows (m_shape b) \<longrightarrow> occupied b \<lparr>vx = vx p, vy = r\<rparr>)) \<and>
         length res \<le> nat (cols (m_shape b))"
proof (intro conjI ballI allI impI)
  from genLoop_Inr [of b "[0 .. cols (m_shape b) - 1]" "[]" res] assms(2)
  have m: "map vx res = filter (\<lambda>x. tileAt b \<lparr>vx = x, vy = 0\<rparr> = Some Empty)
                        [0 .. cols (m_shape b) - 1]"
    and dt: "\<forall>p \<in> set res. dropTarget b p"
    by (auto simp: generateValidPositions_def)
  show "map vx res = filter (\<lambda>x. tileAt b \<lparr>vx = x, vy = 0\<rparr> = Some Empty)
                        [0 .. cols (m_shape b) - 1]" by (rule m)
  have "length res = length (map vx res)" by simp
  also have "\<dots> \<le> length [0 .. cols (m_shape b) - 1]" unfolding m by (rule length_filter_le)
  finally show "length res \<le> nat (cols (m_shape b))" by simp
  fix p assume p: "p \<in> set res"
  with dt have e: "tileAt b p = Some Empty"
    and below: "vy p + 1 = rows (m_shape b) \<or> occupied b \<lparr>vx = vx p, vy = vy p + 1\<rparr>"
    by (auto simp: dropTarget_def)
  show "tileAt b p = Some Empty" by (rule e)
  fix r assume r: "vy p < r \<and> r < rows (m_shape b)"
  with below have o: "occupied b \<lparr>vx = vx p, vy = vy p + 1\<rparr>" by auto
  show "occupied b \<lparr>vx = vx p, vy = r\<rparr>"
  proof (cases "r = vy p + 1")
    case True
    with o show ?thesis by simp
  next
    case False
    with r have "vy \<lparr>vx = vx p, vy = vy p + 1\<rparr> < r" by simp
    from supportedD [OF assms(1) o this] r show ?thesis by simp
  qed
qed

text \<open>
  On the board with three Positive tiles in the bottom row the call completes; the
  position for column 0 is row 4, an empty cell with the tile of row 5 below it.
\<close>

lemma generateValidPositions_correct_example:
  "supported threeInRow \<and>
   generateValidPositions threeInRow = Inr
     [\<lparr>vx = 0, vy = 4\<rparr>, \<lparr>vx = 1, vy = 4\<rparr>, \<lparr>vx = 2, vy = 4\<rparr>, \<lparr>vx = 3, vy = 5\<rparr>,
      \<lparr>vx = 4, vy = 5\<rparr>, \<lparr>vx = 5, vy = 5\<rparr>, \<lparr>vx = 6, vy = 5\<rparr>] \<and>
   tileAt threeInRow \<lparr>vx = 0, vy = 4\<rparr> = Some Empty \<and>
   occupied threeInRow \<lparr>vx = 0, vy = 5\<rparr>"
proof -
  let ?res = "[\<lparr>vx = 0, vy = 4\<rparr>, \<lparr>vx = 1, vy = 4\<rparr>, \<lparr>vx = 2, vy = 4\<rparr>, \<lparr>vx = 3, vy = 5\<rparr>,
      \<lparr>vx = 4, vy = 5\<rparr>, \<lparr>vx = 5, vy = 5\<rparr>, \<lparr>vx = 6, vy = 5\<rparr>]"
  have sup: "supported threeInRow" by code_simp
  have gen: "generateValidPositions threeInRow = Inr ?res" by code_simp
  have sh: "rows (m_shape threeInRow) = 6" by code_simp
  from generateValidPositions_correct [OF sup gen]
  have "\<forall>p \<in> set ?res. tileAt threeInRow p = Some Empty \<and>
      (\<forall>r. vy p < r \<and> r < rows (m_shape threeInRow) \<longrightarrow>
           occupied threeInRow \<lparr>vx = vx p, vy = r\<rparr>)"
    by blast
  then have "tileAt threeInRow \<lparr>vx = 0, vy = 4\<rparr> = Some Empty \<and>
      (\<forall>r. 4 < r \<and> r < 6 \<longrightarrow> occupied threeInRow \<lparr>vx = 0, vy = r\<rparr>)"
    by (simp add: sh)
  then have "tileAt threeInRow \<lparr>vx = 0, vy = 4\<rparr> = Some Empty \<and>
      occupied threeInRow \<lparr>vx = 0, vy = 5\<rparr>"
    by simp
  with sup gen show ?thesis by simp
qed

text \<open>
  The board after a first move to column 3 obeys the invariants of the data model: no
  cell holds both colours, and the tile is supported from below.
\<close>

lemma first_move_board_obeys_data_model:
  "oneColourPerCell (snd (place (emptyBoard 6 7) \<lparr>pos = \<lparr>vx = 3, vy = 5\<rparr>, tile = Positive\<rparr>)) \<and>
   supported (snd (place (emptyBoard 6 7) \<lparr>pos = \<lparr>vx = 3, vy = 5\<rparr>, tile = Positive\<rparr>))"
  by code_simp

text \<open>
  Claim C2 states the result above of every board. The call does not complete on a
  board whose first column that is not full is entirely empty (claim C3), for one the
  board after a first move to column 3: the bottom cell of column 0 is empty, so column
  0 has a lowest empty row, and the call reads the last element of the empty vector
  and returns nothing.
\<close>

theorem generateValidPositions_after_first_move:
  "tileAt (snd (place (emptyBoard 6 7) \<lparr>pos = \<lparr>vx = 3, vy = 5\<rparr>, tile = Positive\<rparr>))
     \<lparr>vx = 0, vy = 5\<rparr> = Some Empty \<and>
   generateValidPositions
     (snd (place (emptyBoard 6 7) \<lparr>pos = \<lparr>vx = 3, vy = 5\<rparr>, tile = Positive\<rparr>))
     = Inl EmptyVectorAccess"
  by code_simp

section \<open>The move generator reads the last element of an empty vector\<close>

text \<open>
  Claim C3 says that \<^verbatim>\<open>res\<close> is never empty where \<^verbatim>\<open>generateValidPositions\<close> evaluates
  \<^verbatim>\<open>res.back()\<close>. On the empty 6 x 7 board it is: column 0 is entirely empty, the inner
  loop pushes nothing, and the test \<^verbatim>\<open>res.back().x != x\<close> is reached with nothing in
  \<^verbatim>\<open>res\<close>.
\<close>

theorem generateValidPositions_empty_board:
  "generateValidPositions (emptyBoard 6 7) = Inl EmptyVectorAccess"
  by (simp add: generateValidPositions_def board_eval upto_rec1)

section \<open>Placement and the invariants of the data model\<close>

text \<open>
  Claim C4, as the code has it. On a board whose cells hold at most one colour and whose
  pieces are all supported from below, a successful placement again gives a board whose
  pieces are all supported. No cell holds both colours afterwards exactly when the
  target cell did not hold a tile of the other colour: \<^verbatim>\<open>Board::operator<<\<close> does not
  look at the target cell, so it also drops a tile onto a tile of the opponent.
\<close>

theorem place_preserves_invariants:
  assumes one: "oneColourPerCell b" and sup: "supported b" and ok: "fst (place b m)"
  shows "supported (snd (place b m)) \<and>
         (oneColourPerCell (snd (place b m)) \<longleftrightarrow> tileAt b (pos m) \<noteq> Some (getEnemyTile (tile m)))"
proof
  let ?b' = "snd (place b m)"
  from ok have v: "isValidPosition b (pos m)"
    and t: "tile m = Positive \<or> tile m = Negative"
    and below: "vy (pos m) + 1 = rows (m_shape b) \<or>
        occupied b \<lparr>vx = vx (pos m), vy = vy (pos m) + 1\<rparr>"
    by (auto simp: place_def Let_def occupied_def tileAt_def isValidPosition_def
          split: if_splits Tile.splits)
  have under: "occupied b \<lparr>vx = vx (pos m), vy = r\<rparr>"
    if r: "vy (pos m) < r" "r < rows (m_shape b)" for r
  proof -
    from r below have o: "occupied b \<lparr>vx = vx (pos m), vy = vy (pos m) + 1\<rparr>" by auto
    show ?thesis
    proof (cases "r = vy (pos m) + 1")
      case True
      with o show ?thesis by simp
    next
      case False
      with r have "vy \<lparr>vx = vx (pos m), vy = vy (pos m) + 1\<rparr> < r" by simp
      from supportedD [OF sup o this r(2)] show ?thesis by simp
    qed
  qed
  show "supported ?b'"
  proof (rule supportedI)
    fix p r
    assume op: "occupied ?b' p" and r: "vy p < r" "r < rows (m_shape ?b')"
    from op have "occupied b p \<or> p = pos m" by (simp add: occupied_place [OF ok])
    then have "occupied b \<lparr>vx = vx p, vy = r\<rparr>"
    proof
      assume "occupied b p"
      from supportedD [OF sup this r(1)] r(2) show ?thesis by simp
    next
      assume "p = pos m"
      with under [of r] r show ?thesis by simp
    qed
    then show "occupied ?b' \<lparr>vx = vx p, vy = r\<rparr>" by (simp add: occupied_place [OF ok])
  qed
  have cell: "tileAt b (pos m) \<noteq> Some (getEnemyTile (tile m)) \<longleftrightarrow>
      \<not> hasPiece b (getEnemyTile (tile m)) (pos m)"
  proof -
    from one v have "\<not> (hasPiece b Positive (pos m) \<and> hasPiece b Negative (pos m))"
      by (auto simp: oneColourPerCell_def set_allPositions)
    with v t show ?thesis by (auto simp: tileAt_def hasPiece_def)
  qed
  show "oneColourPerCell ?b' \<longleftrightarrow> tileAt b (pos m) \<noteq> Some (getEnemyTile (tile m))"
  proof
    assume "oneColourPerCell ?b'"
    with v have "\<not> (hasPiece ?b' Positive (pos m) \<and> hasPiece ?b' Negative (pos m))"
      by (auto simp: oneColourPerCell_def set_allPositions)
    with t show "tileAt b (pos m) \<noteq> Some (getEnemyTile (tile m))"
      unfolding cell by (auto simp: hasPiece_place [OF ok v])
  next
    assume "tileAt b (pos m) \<noteq> Some (getEnemyTile (tile m))"
    then have free: "\<not> hasPiece b (getEnemyTile (tile m)) (pos m)" by (simp add: cell)
    show "oneColourPerCell ?b'"
      unfolding oneColourPerCell_def
    proof (intro ballI)
      fix q assume "q \<in> set (allPositions ?b')"
      then have vq: "isValidPosition b q" by (simp add: set_allPositions)
      with one have "\<not> (hasPiece b Positive q \<and> hasPiece b Negative q)"
        by (auto simp: oneColourPerCell_def set_allPositions)
      with free t show "\<not> (hasPiece ?b' Positive q \<and> hasPiece ?b' Negative q)"
        by (auto simp: hasPiece_place [OF ok vq])
    qed
  qed
qed

text \<open>The fourth Positive tile dropped next to the three in the bottom row.\<close>

theorem place_preserves_invariants_witness:
  "oneColourPerCell threeInRow \<and> supported threeInRow \<and>
   fst (place threeInRow \<lparr>pos = \<lparr>vx = 3, vy = 5\<rparr>, tile = Positive\<rparr>) \<and>
   tileAt threeInRow \<lparr>vx = 3, vy = 5\<rparr> = Some Empty \<and>
   supported (snd (place threeInRow \<lparr>pos = \<lparr>vx = 3, vy = 5\<rparr>, tile = Positive\<rparr>)) \<and>
   oneColourPerCell (snd (place threeInRow \<lparr>pos = \<lparr>vx = 3, vy = 5\<rparr>, tile = Positive\<rparr>))"
proof -
  let ?m = "\<lparr>pos = \<lparr>vx = 3, vy = 5\<rparr>, tile = Positive\<rparr>"
  have one: "oneColourPerCell threeInRow" by code_simp
  have sup: "supported threeInRow" by code_simp
  have ok: "fst (place threeInRow ?m)" by code_simp
  have cell: "tileAt threeInRow \<lparr>vx = 3, vy = 5\<rparr> = Some Empty" by code_simp
  from place_preserves_invariants [OF one sup ok] cell
  have "supported (snd (place threeInRow ?m)) \<and> oneColourPerCell (snd (place threeInRow ?m))"
    by simp
  with one sup ok cell show ?thesis by simp
qed

text \<open>
  The claim as stated fails when a tile is dropped onto a tile of the other colour: with
  a Negative tile at column 0, row 5 of the 6 x 7 board, the Positive move to the same
  cell is accepted, and the cell then has both bits set.
\<close>

theorem place_preserves_invariants_counterexample:
  "oneColourPerCell (snd (place (emptyBoard 6 7) \<lparr>pos = \<lparr>vx = 0, vy = 5\<rparr>, tile = Negative\<rparr>)) \<and>
   supported (snd (place (emptyBoard 6 7) \<lparr>pos = \<lparr>vx = 0, vy = 5\<rparr>, tile = Negative\<rparr>)) \<and>
   fst (place (snd (place (emptyBoard 6 7) \<lparr>pos = \<lparr>vx = 0, vy = 5\<rparr>, tile = Negative\<rparr>))
          \<lparr>pos = \<lparr>vx = 0, vy = 5\<rparr>, tile = Positive\<rparr>) \<and>
   \<not> oneColourPerCell
        (snd (place (snd (place (emptyBoard 6 7) \<lparr>pos = \<lparr>vx = 0, vy = 5\<rparr>, tile = Negative\<rparr>))
                \<lparr>pos = \<lparr>vx = 0, vy = 5\<rparr>, tile = Positive\<rparr>))"
  by code_simp

section \<open>Placement: success, effect and failure\<close>

text \<open>
  Claim C5. \<^verbatim>\<open>Board::operator<<\<close> returns success exactly when the position is within
  the grid, it lies on the bottom row or the cell directly below it holds a tile, and
  the tile of the move is Positive or Negative. On success the bit set of that colour
  gains exactly the bit of the position and nothing else changes; on every failure
  the board is returned as it was.
\<close>

theorem place_success_and_effect:
  "(fst (place b m) \<longleftrightarrow>
      isValidPosition b (pos m) \<and>
      (vy (pos m) + 1 = rows (m_shape b) \<or>
       tileAt b \<lparr>vx = vx (pos m), vy = vy (pos m) + 1\<rparr> = Some Positive \<or>
       tileAt b \<lparr>vx = vx (pos m), vy = vy (pos m) + 1\<rparr> = Some Negative) \<and>
      (tile m = Positive \<or> tile m = Negative)) \<and>
   (fst (place b m) \<and> tile m = Positive \<longrightarrow>
      (\<forall>j. bit (m_positivePieces (snd (place b m))) j \<longleftrightarrow>
             bit (m_positivePieces b) j \<or> j = index b (pos m)) \<and>
      m_negativePieces (snd (place b m)) = m_negativePieces b \<and>
      m_shape (snd (place b m)) = m_shape b) \<and>
   (fst (place b m) \<and> tile m = Negative \<longrightarrow>
      (\<forall>j. bit (m_negativePieces (snd (place b m))) j \<longleftrightarrow>
             bit (m_negativePieces b) j \<or> j = index b (pos m)) \<and>
      m_positivePieces (snd (place b m)) = m_positivePieces b \<and>
      m_shape (snd (place b m)) = m_shape b) \<and>
   (\<not> fst (place b m) \<longrightarrow> snd (place b m) = b)"
proof (intro conjI impI)
  show "fst (place b m) \<longleftrightarrow>
      isValidPosition b (pos m) \<and>
      (vy (pos m) + 1 = rows (m_shape b) \<or>
       tileAt b \<lparr>vx = vx (pos m), vy = vy (pos m) + 1\<rparr> = Some Positive \<or>
       tileAt b \<lparr>vx = vx (pos m), vy = vy (pos m) + 1\<rparr> = Some Negative) \<and>
      (tile m = Positive \<or> tile m = Negative)"
    by (auto simp: place_def Let_def tileAt_def isValidPosition_def
             split: Tile.splits if_splits)
next
  assume ok: "fst (place b m) \<and> tile m = Positive"
  then have v: "isValidPosition b (pos m)"
    by (auto simp: place_def split: if_splits)
  from ok v have eq: "snd (place b m) =
      b\<lparr>m_positivePieces := m_positivePieces b OR bitset_shl (n_elems b) 1 (index b (pos m))\<rparr>"
    by (auto simp: place_def Let_def split: if_splits)
  show "\<forall>j. bit (m_positivePieces (snd (place b m))) j \<longleftrightarrow>
             bit (m_positivePieces b) j \<or> j = index b (pos m)"
    using index_less_n_elems [OF v] by (auto simp: eq bit_simps bit_mask_shl)
  show "m_negativePieces (snd (place b m)) = m_negativePieces b" by (simp add: eq)
  show "m_shape (snd (place b m)) = m_shape b" by simp
next
  assume ok: "fst (place b m) \<and> tile m = Negative"
  then have v: "isValidPosition b (pos m)"
    by (auto simp: place_def split: if_splits)
  from ok v have eq: "snd (place b m) =
      b\<lparr>m_negativePieces := m_negativePieces b OR bitset_shl (n_elems b) 1 (index b (pos m))\<rparr>"
    by (auto simp: place_def Let_def split: if_splits)
  show "\<forall>j. bit (m_negativePieces (snd (place b m))) j \<longleftrightarrow>
             bit (m_negativePieces b) j \<or> j = index b (pos m)"
    using index_less_n_elems [OF v] by (auto simp: eq bit_simps bit_mask_shl)
  show "m_positivePieces (snd (place b m)) = m_positivePieces b" by (simp add: eq)
  show "m_shape (snd (place b m)) = m_shape b" by simp
next
  assume "\<not> fst (place b m)"
  then show "snd (place b m) = b"
    by (auto simp: place_def Let_def split: if_splits Tile.splits)
qed

text \<open>
  On the empty 6 x 7 board a Positive tile dropped at column 3, row 5 is accepted and
  sets bit \<open>5 * 7 + 3 = 38\<close>; the same tile at row 4 has nothing below it and is
  refused.
\<close>

theorem place_success_and_effect_witness:
  "fst (place (emptyBoard 6 7) \<lparr>pos = \<lparr>vx = 3, vy = 5\<rparr>, tile = Positive\<rparr>) \<and>
   bit (m_positivePieces
         (snd (place (emptyBoard 6 7) \<lparr>pos = \<lparr>vx = 3, vy = 5\<rparr>, tile = Positive\<rparr>))) 38 \<and>
   \<not> fst (place (emptyBoard 6 7) \<lparr>pos = \<lparr>vx = 3, vy = 4\<rparr>, tile = Positive\<rparr>) \<and>
   snd (place (emptyBoard 6 7) \<lparr>pos = \<lparr>vx = 3, vy = 4\<rparr>, tile = Positive\<rparr>) = emptyBoard 6 7"
proof -
  let ?b = "emptyBoard 6 7"
  let ?m = "\<lparr>pos = \<lparr>vx = 3, vy = 5\<rparr>, tile = Positive\<rparr>"
  let ?m' = "\<lparr>pos = \<lparr>vx = 3, vy = 4\<rparr>, tile = Positive\<rparr>"
  have legal: "isValidPosition ?b (pos ?m) \<and> vy (pos ?m) + 1 = rows (m_shape ?b) \<and>
      tile ?m = Positive"
    by (simp add: isValidPosition_def emptyBoard_def)
  have ix: "index ?b (pos ?m) = 38"
    by (simp add: index_def emptyBoard_def)
  have unsupported: "vy (pos ?m') + 1 \<noteq> rows (m_shape ?b) \<and>
      tileAt ?b \<lparr>vx = vx (pos ?m'), vy = vy (pos ?m') + 1\<rparr> = Some Empty"
    by (simp add: board_eval)
  from place_success_and_effect [of ?b ?m] legal ix
  have "fst (place ?b ?m) \<and> bit (m_positivePieces (snd (place ?b ?m))) 38"
    by simp
  moreover from place_success_and_effect [of ?b ?m'] unsupported
  have "\<not> fst (place ?b ?m') \<and> snd (place ?b ?m') = ?b"
    by simp
  ultimately show ?thesis by simp
qed

section \<open>Minimax on the board one move from a win\<close>




text \<open>
  The search is depth first and tries the columns from the left. Its first line of
  play fills columns 0, 1 and 2 without a four in a row; the board it reaches after
  fifteen plies is not terminal, and the move generator fails on it as in claim C3:
  the first column that is not full, column 3, is entirely empty. With depth 16 the
  search reaches \<open>leftmostLine\<close> with one ply left and has no defined result.
\<close>

lemma leftmostLine_not_terminal_no_positions:
  "fst (evaluate leftmostLine) = None \<and>
   generateValidPositions leftmostLine = Inl EmptyVectorAccess"
  by code_simp

lemma minimaxNextMove_depth_16:
  "minimaxNextMove 16 Positive Negative threeInRow = Inl EmptyVectorAccess"
  by code_simp





section \<open>The move the search returns\<close>

text \<open>
  Claim C7, as the code has it. When a search with a budget of at least one
  simulation returns a move, the move is a key of the children of the root, the visit
  count of its child is maximal among the children of the root, and among the moves
  with that count it is the first in the order in which the \<^verbatim>\<open>std::unordered_map\<close> of
  the children is iterated. The win rate plays no part. The order of iteration is
  that of the hash table, which the platform decides; it is not the order of the
  columns.
\<close>

theorem monteCarloTreeSearch_most_visited:
  assumes "monteCarloTreeSearch P m_nSimulation m_c m_tile b = Inr mv"
    and "0 < m_nSimulation"
    and "\<And>ks. set (iterationOrder P ks) = set ks"
  shows "\<exists>root root' k.
           newNode m_tile b = Inr root \<and>
           simulations P m_c m_tile (nat m_nSimulation) (root, 0) = Inr (root', k) \<and>
           mv \<in> fst ` set (children root') \<and>
           (\<forall>m \<in> fst ` set (children root'). visitsAt root' m \<le> visitsAt root' mv) \<and>
           (\<exists>before after. getExpandedMoves P root' = before @ mv # after \<and>
              (\<forall>m \<in> set before. visitsAt root' m < visitsAt root' mv))"
proof -
  from assms(1) obtain root root' k where nn: "newNode m_tile b = Inr root"
    and sim: "simulations P m_c m_tile (nat m_nSimulation) (root, 0) = Inr (root', k)"
    and sel: "mostVisited_loop root' (getExpandedMoves P root') defaultMove 0 = Inr mv"
    by (auto simp: monteCarloTreeSearch_def split: sum.splits)
  let ?moves = "getExpandedMoves P root'"
  have keys: "set ?moves = fst ` set (children root')"
    by (simp add: getExpandedMoves_def assms(3))
  from newNode_visits [OF nn] have "uniqueKeys root" "childVisits root = 0"
    by (simp_all add: uniqueKeys_def childVisits_def)
  with simulations_uniqueKeys [OF sim] simulations_childVisits [OF sim] assms(2)
  have "uniqueKeys root'" "0 < childVisits root'" by simp_all
  from visited_child [OF this] keys have "\<exists>m \<in> set ?moves. visitsAt root' m > 0" by simp
  from if_holdsD [OF mostVisited_loop_result [OF sel] this]
  obtain before after where m: "?moves = before @ mv # after"
    and b: "\<forall>m \<in> set before. visitsAt root' m < visitsAt root' mv"
    and a: "\<forall>m \<in> set after. visitsAt root' m \<le> visitsAt root' mv"
    by (elim exE conjE)
  from m have "mv \<in> set ?moves" by simp
  then have 1: "mv \<in> fst ` set (children root')" by (simp only: keys)
  have 2: "\<forall>m \<in> fst ` set (children root'). visitsAt root' m \<le> visitsAt root' mv"
  proof
    fix x assume "x \<in> fst ` set (children root')"
    then have "x \<in> set (before @ mv # after)" by (simp only: keys [symmetric] m)
    then have "x \<in> set before \<or> x = mv \<or> x \<in> set after" by auto
    with a b show "visitsAt root' x \<le> visitsAt root' mv" by (auto simp: less_imp_le)
  qed
  from m b have 3: "\<exists>before after. ?moves = before @ mv # after \<and>
      (\<forall>m \<in> set before. visitsAt root' m < visitsAt root' mv)" by blast
  from nn sim 1 2 3 show ?thesis by blast
qed

text \<open>
  Three simulations on the 2 x 2 board with a filled bottom row, with the children
  iterated in the order of their insertion: column 0 has two visits, column 1 one.
\<close>

theorem monteCarloTreeSearch_most_visited_witness:
  "monteCarloTreeSearch (testPlatform id) 3 1 Positive bottomRow22
     = Inr \<lparr>pos = \<lparr>vx = 0, vy = 0\<rparr>, tile = Positive\<rparr> \<and>
   (\<exists>root root' k.
      newNode Positive bottomRow22 = Inr root \<and>
      simulations (testPlatform id) 1 Positive 3 (root, 0) = Inr (root', k) \<and>
      \<lparr>pos = \<lparr>vx = 0, vy = 0\<rparr>, tile = Positive\<rparr> \<in> fst ` set (children root') \<and>
      visitsAt root' \<lparr>pos = \<lparr>vx = 1, vy = 0\<rparr>, tile = Positive\<rparr>
        \<le> visitsAt root' \<lparr>pos = \<lparr>vx = 0, vy = 0\<rparr>, tile = Positive\<rparr>)"
proof -
  let ?mv = "\<lparr>pos = \<lparr>vx = 0, vy = 0\<rparr>, tile = Positive\<rparr>"
  let ?other = "\<lparr>pos = \<lparr>vx = 1, vy = 0\<rparr>, tile = Positive\<rparr>"
  have run: "monteCarloTreeSearch (testPlatform id) 3 1 Positive bottomRow22 = Inr ?mv"
    by code_simp
  have order: "set (iterationOrder (testPlatform id) ks) = set ks" for ks
    by (simp add: testPlatform_def)
  from monteCarloTreeSearch_most_visited [OF run _ order]
  obtain root root' k where a: "newNode Positive bottomRow22 = Inr root"
    and b: "simulations (testPlatform id) 1 Positive (nat 3) (root, 0) = Inr (root', k)"
    and c: "?mv \<in> fst ` set (children root')"
    and d: "\<forall>m \<in> fst ` set (children root'). visitsAt root' m \<le> visitsAt root' ?mv"
    by auto
  have "(case newNode Positive bottomRow22 of
      Inl e \<Rightarrow> False
    | Inr root \<Rightarrow>
        (case simulations (testPlatform id) 1 Positive 3 (root, 0) of
           Inl e \<Rightarrow> False
         | Inr (root', k') \<Rightarrow> ?other \<in> fst ` set (children root')))"
    by code_simp
  with a b have "?other \<in> fst ` set (children root')" by simp
  with d have "visitsAt root' ?other \<le> visitsAt root' ?mv" by blast
  with run a b c show ?thesis by auto
qed

text \<open>
  The claim as stated fails on ties. After two simulations on the same board each of
  the two children of the root, column 0 and column 1, has one visit. On a platform
  that iterates the map in the reverse order of insertion, as a chained hash table
  that links a new node in at the front does, the move returned is column 1, not
  column 0.
\<close>

theorem monteCarloTreeSearch_tie_counterexample:
  "monteCarloTreeSearch (testPlatform rev) 2 1 Positive bottomRow22
     = Inr \<lparr>pos = \<lparr>vx = 1, vy = 0\<rparr>, tile = Positive\<rparr> \<and>
   (case newNode Positive bottomRow22 of
      Inl e \<Rightarrow> False
    | Inr root \<Rightarrow>
        (case simulations (testPlatform rev) 1 Positive 2 (root, 0) of
           Inl e \<Rightarrow> False
         | Inr (root', k) \<Rightarrow>
             map (\<lambda>mc. (fst mc, visits (nodeData (snd mc)))) (children root') =
               [(\<lparr>pos = \<lparr>vx = 0, vy = 0\<rparr>, tile = Positive\<rparr>, 1),
                (\<lparr>pos = \<lparr>vx = 1, vy = 0\<rparr>, tile = Positive\<rparr>, 1)]))"
  by code_simp

section \<open>Visit counts after the simulations\<close>

text \<open>
  Whenever \<open>n\<close> simulations on a new root complete, the visit counts of the children
  of the root add up to \<open>n\<close>: every simulation adds one visit to one child of the root.
\<close>

lemma root_children_visits:
  assumes "newNode m_tile b = Inr root"
    and "simulations P m_c m_tile n (root, k) = Inr (root', k')"
  shows "childVisits root' = int n"
proof -
  from newNode_visits [OF assms(1)] have "childVisits root = 0" by (simp add: childVisits_def)
  with simulations_childVisits [OF assms(2)] show ?thesis by simp
qed

text \<open>Three simulations on the 2 x 2 board with a filled bottom row.\<close>

lemma root_children_visits_example:
  "(case newNode Positive bottomRow22 of
      Inl e \<Rightarrow> False
    | Inr root \<Rightarrow>
        (case simulations (testPlatform id) 1 Positive 3 (root, 0) of
           Inl e \<Rightarrow> False
         | Inr (root', k') \<Rightarrow> childVisits root' = 3))"
proof -
  have run: "(case newNode Positive bottomRow22 of
      Inl e \<Rightarrow> False
    | Inr root \<Rightarrow>
        (case simulations (testPlatform id) 1 Positive 3 (root, 0) of
           Inl e \<Rightarrow> False
         | Inr (root', k') \<Rightarrow> True))"
    by code_simp
  then obtain root root' k' where a: "newNode Positive bottomRow22 = Inr root"
    and b: "simulations (testPlatform id) 1 Positive 3 (root, 0) = Inr (root', k')"
    by (auto split: sum.splits)
  from root_children_visits [OF a b] have "childVisits root' = 3" by simp
  with a b show ?thesis by simp
qed


section \<open>An illegal move in the game driver\<close>

text \<open>
  Claim C9. When the placement of the move the active agent returned fails,
  \<^verbatim>\<open>Game::makeMove\<close> leaves the game as it was (the board and the current player
  included) and returns the terminal component of \<^verbatim>\<open>evaluate(board)\<close> on that board.
\<close>

theorem makeMove_illegal_move:
  assumes "getNextMove (currentPlayer g) (board g) = Inr newMove"
    and "\<not> fst (place (board g) newMove)"
  shows "makeMove getNextMove g = Inr (fst (evaluate (board g)), g)"
proof -
  from assms(2) have "snd (place (board g) newMove) = board g"
    by (auto simp: place_def Let_def split: if_splits Tile.splits)
  with assms show ?thesis
    by (auto simp: makeMove_def Let_def split: prod.splits)
qed

text \<open>
  A new 6 x 7 game whose first agent answers column 3, row 4, a cell with nothing
  below it: the move is refused, the game is unchanged and no terminal result is
  reported.
\<close>

theorem makeMove_illegal_move_witness:
  "\<not> fst (place (board (newGame 6 7 (0::nat) 1))
             \<lparr>pos = \<lparr>vx = 3, vy = 4\<rparr>, tile = Positive\<rparr>) \<and>
   makeMove (\<lambda>p b. Inr \<lparr>pos = \<lparr>vx = 3, vy = 4\<rparr>, tile = Positive\<rparr>) (newGame 6 7 (0::nat) 1)
     = Inr (None, newGame 6 7 0 1)"
proof -
  let ?g = "newGame 6 7 (0::nat) 1"
  let ?m = "\<lparr>pos = \<lparr>vx = 3, vy = 4\<rparr>, tile = Positive\<rparr>"
  have bad: "\<not> fst (place (board ?g) ?m)"
    by (simp add: newGame_def board_eval)
  have ev: "fst (evaluate (board ?g)) = None"
    unfolding newGame_def by code_simp
  from makeMove_illegal_move [of "\<lambda>p b. Inr ?m" ?g ?m, OF refl bad] ev bad
  show ?thesis by simp
qed

section \<open>Colour symmetry of the evaluator\<close>

lemma tileAt_colorSwapped:
  assumes "oneColourPerCell b"
  shows "tileAt (colorSwapped b) p = map_option getEnemyTile (tileAt b p)"
proof (cases "isValidPosition b p")
  case False
  then show ?thesis by (simp add: tileAt_def colorSwapped_def isValidPosition_def)
next
  case True
  then have "p \<in> set (allPositions b)" by (simp add: set_allPositions)
  with assms have "\<not> (hasPiece b Positive p \<and> hasPiece b Negative p)"
    by (auto simp: oneColourPerCell_def)
  with True show ?thesis
    by (auto simp: tileAt_def colorSwapped_def isValidPosition_def hasPiece_def index_def)
qed

lemma getEnemyTile_eq_iff: "getEnemyTile s = getEnemyTile t \<longleftrightarrow> s = t"
  by (cases s; cases t) auto

lemma check_loop_swapped:
  assumes "oneColourPerCell b"
  shows "check_loop (colorSwapped b) p d (getEnemyTile t) is c = check_loop b p d t is c"
proof (induction "is" arbitrary: c)
  case Nil
  show ?case by simp
next
  case (Cons i "is")
  have sh: "m_shape (colorSwapped b) = m_shape b" by (simp add: colorSwapped_def)
  show ?case
    by (auto simp: Let_def sh tileAt_colorSwapped [OF assms] Cons getEnemyTile_eq_iff
        split: option.splits)
qed

lemma check_swapped:
  "oneColourPerCell b \<Longrightarrow> check (colorSwapped b) p d (getEnemyTile t) = check b p d t"
  by (simp add: check_def check_loop_swapped)

lemma winResult_swapped:
  "t \<noteq> Empty \<Longrightarrow> swapOutcome (Inl (winResult t)) = Inl (winResult (getEnemyTile t))"
  by (cases t) (auto simp: swapOutcome_def winResult_def long_max_def long_min_def)

lemma eval_directions_swapped:
  assumes "oneColourPerCell b" and "t \<noteq> Empty" and "s' = - s"
  shows "eval_directions (colorSwapped b) p (getEnemyTile t) ds s'
         = swapOutcome (eval_directions b p t ds s)"
  using assms(3)
proof (induction ds arbitrary: s s')
  case Nil
  then show ?case by (simp add: swapOutcome_def)
next
  case (Cons d ds)
  have tv: "tileValue (getEnemyTile t) = - tileValue t" by (cases t) auto
  have step: "s' + 10 ^ k * tileValue (getEnemyTile t) = - (s + 10 ^ k * tileValue t)" for k
    using Cons.prems by (simp add: tv)
  show ?case
    using winResult_swapped [OF assms(2)] Cons.IH [OF step]
    by (simp add: Let_def check_swapped [OF assms(1)])
qed

lemma eval_cells_swapped:
  assumes "oneColourPerCell b"
  shows "eval_cells (colorSwapped b) ps (- s) = swapOutcome (eval_cells b ps s)"
proof (induction ps arbitrary: s)
  case Nil
  show ?case by (simp add: swapOutcome_def)
next
  case (Cons p ps)
  show ?case
  proof (cases "tileAt b p")
    case None
    then show ?thesis by (simp add: tileAt_colorSwapped [OF assms] Cons)
  next
    case (Some t)
    show ?thesis
    proof (cases "t = Empty")
      case True
      with Some show ?thesis by (simp add: tileAt_colorSwapped [OF assms] Cons)
    next
      case False
      then have ne: "getEnemyTile t \<noteq> Empty" by (cases t) auto
      have "eval_cells (colorSwapped b) (p # ps) (- s) =
          (case eval_directions (colorSwapped b) p (getEnemyTile t) directions (- s) of
             Inl r \<Rightarrow> Inl r | Inr s' \<Rightarrow> eval_cells (colorSwapped b) ps s')"
        using Some ne by (cases "getEnemyTile t") (simp_all add: tileAt_colorSwapped [OF assms])
      moreover have "eval_cells b (p # ps) s =
          (case eval_directions b p t directions s of
             Inl r \<Rightarrow> Inl r | Inr s' \<Rightarrow> eval_cells b ps s')"
        using Some False by (cases t) simp_all
      ultimately show ?thesis
        by (auto simp: eval_directions_swapped [OF assms False refl] Cons swapOutcome_def
            split: sum.splits prod.splits)
    qed
  qed
qed

lemma map_getEnemyTile_Empty: "map_option getEnemyTile v = Some Empty \<longleftrightarrow> v = Some Empty"
  by (cases v; cases "the v") auto

lemma isDraw_swapped: "oneColourPerCell b \<Longrightarrow> isDraw (colorSwapped b) = isDraw b"
proof -
  assume a: "oneColourPerCell b"
  have sh: "m_shape (colorSwapped b) = m_shape b" by (simp add: colorSwapped_def)
  have "tileAt (colorSwapped b) q = Some Empty \<longleftrightarrow> tileAt b q = Some Empty" for q
    by (simp only: tileAt_colorSwapped [OF a] map_getEnemyTile_Empty)
  then show ?thesis
    by (simp add: isDraw_def sh)
qed

lemma allPositions_swapped: "allPositions (colorSwapped b) = allPositions b"
  by (simp add: allPositions_def colorSwapped_def)

lemma eval_directions_Inl:
  "eval_directions b p t ds s = Inl r \<Longrightarrow> r = winResult t"
  by (induction ds arbitrary: s) (auto simp: Let_def split: if_splits)

lemma eval_cells_Inl:
  "eval_cells b ps s = Inl r \<Longrightarrow> r = (Some 1, long_max) \<or> r = (Some (- 1), long_min)"
proof (induction ps arbitrary: s)
  case Nil
  then show ?case by simp
next
  case (Cons p ps)
  then show ?case
    by (auto simp: winResult_def split: option.splits Tile.splits sum.splits
        dest!: eval_directions_Inl)
qed

text \<open>
  Claim C10, as the code has it. On a board whose cells hold at most one colour each,
  exchanging the colours negates the terminal result, and it negates the heuristic
  score whenever \<^verbatim>\<open>evaluate\<close> reports no win. At a win the score is saturated to
  \<^verbatim>\<open>LONG_MAX\<close> for Positive and to \<^verbatim>\<open>LONG_MIN\<close> for Negative, and the exchange turns one
  into the other; these two are not negations of each other.
\<close>

theorem evaluate_colorSwapped:
  assumes "oneColourPerCell b"
  shows "fst (evaluate (colorSwapped b)) = map_option uminus (fst (evaluate b)) \<and>
     (fst (evaluate b) = Some 1 \<longrightarrow>
        snd (evaluate b) = long_max \<and> snd (evaluate (colorSwapped b)) = long_min) \<and>
     (fst (evaluate b) = Some (- 1) \<longrightarrow>
        snd (evaluate b) = long_min \<and> snd (evaluate (colorSwapped b)) = long_max) \<and>
     (fst (evaluate b) \<noteq> Some 1 \<and> fst (evaluate b) \<noteq> Some (- 1) \<longrightarrow>
        snd (evaluate (colorSwapped b)) = - snd (evaluate b))"
proof (cases "eval_cells b (allPositions b) 0")
  case (Inl r)
  from eval_cells_Inl [OF Inl] have r: "r = (Some 1, long_max) \<or> r = (Some (- 1), long_min)" .
  from eval_cells_swapped [OF assms, of "allPositions b" 0] Inl
  have "eval_cells (colorSwapped b) (allPositions b) 0 = swapOutcome (Inl r)" by simp
  with r Inl show ?thesis
    by (auto simp: evaluate_def allPositions_swapped swapOutcome_def long_max_def long_min_def)
next
  case (Inr s)
  from eval_cells_swapped [OF assms, of "allPositions b" 0] Inr
  have "eval_cells (colorSwapped b) (allPositions b) 0 = Inr (- s)"
    by (simp add: swapOutcome_def)
  with Inr show ?thesis
    by (simp add: evaluate_def allPositions_swapped isDraw_swapped [OF assms])
qed

text \<open>The board with three Positive tiles in the bottom row scores 3090, its mirror -3090.\<close>

theorem evaluate_colorSwapped_witness:
  "oneColourPerCell threeInRow \<and> evaluate threeInRow = (None, 3090) \<and>
   evaluate (colorSwapped threeInRow) = (None, - 3090)"
proof -
  have one: "oneColourPerCell threeInRow" by code_simp
  have ev: "evaluate threeInRow = (None, 3090)" by code_simp
  from evaluate_colorSwapped [OF one] ev
  have "fst (evaluate (colorSwapped threeInRow)) = None \<and>
        snd (evaluate (colorSwapped threeInRow)) = - 3090"
    by simp
  then have "evaluate (colorSwapped threeInRow) = (None, - 3090)"
    by (simp add: prod_eq_iff)
  with one ev show ?thesis by simp
qed

text \<open>
  With a fourth Positive tile at column 3 the board is a win for Positive with score
  \<^verbatim>\<open>LONG_MAX\<close>; its mirror is a win for Negative with score \<^verbatim>\<open>LONG_MIN\<close>, which is not
  \<open>- LONG_MAX\<close>.
\<close>

theorem evaluate_colorSwapped_counterexample:
  "evaluate (snd (place threeInRow \<lparr>pos = \<lparr>vx = 3, vy = 5\<rparr>, tile = Positive\<rparr>))
     = (Some 1, long_max) \<and>
   evaluate (colorSwapped (snd (place threeInRow \<lparr>pos = \<lparr>vx = 3, vy = 5\<rparr>, tile = Positive\<rparr>)))
     = (Some (- 1), long_min) \<and>
   snd (evaluate (snd (place threeInRow \<lparr>pos = \<lparr>vx = 3, vy = 5\<rparr>, tile = Positive\<rparr>)))
     \<noteq> - snd (evaluate (colorSwapped
                (snd (place threeInRow \<lparr>pos = \<lparr>vx = 3, vy = 5\<rparr>, tile = Positive\<rparr>))))"
  by code_simp

end
